theory Spec2Isabelle
  imports Complex_Main "HOL-Library.Multiset" "HOL-Library.Log_Nat"
begin

section \<open>The adaptive quiz of \<open>script.js\<close>\<close>

text \<open>
  The development embeds the classes \<open>Question\<close>, \<open>Player\<close> and \<open>Quiz\<close>, the function
  \<open>calculateDificultyLevel\<close> and the generator \<open>quizFlowGenerator\<close> of \<open>script.js\<close>.
  Objects are records, methods are functions from the object's state to its new state,
  the generator is a record of its local variables together with the point where it is
  suspended, and writes to the page are entries appended to a list.
  What belongs to the host and not to the script is a parameter or a small model of its
  own: the values drawn by \<open>Math.random\<close> are a function \<open>rnd\<close> from the number of the
  draw to its value, \<open>Array.prototype.sort\<close> is an insertion sort, the timer started by
  \<open>setTimeout\<close> is a counter of pending callbacks, and arithmetic on Numbers rounds as
  binary64 does. The network request of \<open>fetchQuestionsFromAPI\<close> is not modelled: a quiz
  starts from the list of questions that the request produced.
\<close>

subsection \<open>Numbers\<close>

text \<open>
  A JavaScript Number is a binary64 value. The finite ones are rational numbers; the only
  other values the script can produce are the quotients \<open>n / 0\<close> of two counters, which are
  \<open>Infinity\<close> or \<open>NaN\<close>. The function \<open>fl\<close> rounds a rational number to the nearest value
  with a 53 bit significand, ties to even; the exponent is not bounded, which agrees with
  binary64 as long as the magnitudes stay inside its range, as quotients of counters and
  percentages do.
\<close>

datatype number = Num rat | Infinity | NaN

definition exponent_of :: "rat \<Rightarrow> int" where
  \<comment> \<open>for \<open>0 < x\<close>, the \<open>e\<close> with \<open>2 ^ e \<le> x < 2 ^ (e + 1)\<close>\<close>
  "exponent_of x =
     (let (a, b) = quotient_of x;
          e0 = bitlen a - bitlen b
      in if power_int 2 e0 \<le> x then e0 else e0 - 1)"

definition round_half_even :: "rat \<Rightarrow> int" where
  "round_half_even m =
     (let f = \<lfloor>m\<rfloor>; d = m - of_int f
      in if d < 1 / 2 then f else if 1 / 2 < d then f + 1
         else if even f then f else f + 1)"

definition fl :: "rat \<Rightarrow> rat" where
  "fl x =
     (if x = 0 then 0
      else let e = exponent_of \<bar>x\<bar>; q = power_int 2 (52 - e)
           in sgn x * of_int (round_half_even (\<bar>x\<bar> * q)) / q)"

definition js_divide :: "nat \<Rightarrow> nat \<Rightarrow> number" where
  \<comment> \<open>\<open>a / b\<close> for two counters\<close>
  "js_divide a b =
     (if b = 0 then (if a = 0 then NaN else Infinity)
      else Num (fl (of_nat a / of_nat b)))"

fun js_times :: "number \<Rightarrow> nat \<Rightarrow> number" where
  \<comment> \<open>\<open>x * k\<close> for a non-negative \<open>x\<close> and a counter \<open>k\<close>\<close>
  "js_times (Num x) k = Num (fl (x * of_nat k))"
| "js_times Infinity k = (if k = 0 then NaN else Infinity)"
| "js_times NaN k = NaN"

fun Math_round :: "number \<Rightarrow> number" where
  \<comment> \<open>the nearest integer, the one closer to \<open>+\<infinity>\<close> of two equally near\<close>
  "Math_round (Num x) = Num (of_int \<lfloor>x + 1 / 2\<rfloor>)"
| "Math_round Infinity = Infinity"
| "Math_round NaN = NaN"

fun js_gt :: "number \<Rightarrow> number \<Rightarrow> bool" where
  \<comment> \<open>\<open>x > y\<close>; a comparison with \<open>NaN\<close> is false\<close>
  "js_gt (Num x) (Num y) = (y < x)"
| "js_gt Infinity (Num y) = True"
| "js_gt x y = False"

definition literal :: "rat \<Rightarrow> number" where
  \<comment> \<open>the Number that a decimal literal of the source denotes\<close>
  "literal x = Num (fl x)"

subsection \<open>\<open>calculateDificultyLevel\<close>\<close>

definition calculateDificultyLevel :: "number \<Rightarrow> string" where
  "calculateDificultyLevel performanceScore =
     (if js_gt performanceScore (literal (7 / 10)) then ''hard''
      else if js_gt performanceScore (literal (4 / 10)) then ''medium''
      else ''easy'')"

subsection \<open>\<open>Question\<close>\<close>

record question =
  questionText :: string
  answerChoices :: "string list"
  correctAns :: string
  difficultyLevel :: string

definition validateAnswer :: "question \<Rightarrow> string option \<Rightarrow> bool" where
  \<comment> \<open>\<open>===\<close> on the answer; \<open>None\<close> is \<open>undefined\<close>, which equals no string\<close>
  "validateAnswer q userSelectedAnswer = (userSelectedAnswer = Some (correctAns q))"

subsection \<open>\<open>Player\<close>\<close>

text \<open>
  An entry of \<open>allScores\<close>. The field \<open>timestamp\<close> of the source holds the date of the wall
  clock at the call; it is left out.
\<close>

record attempt =
  attempt_score :: nat
  attempt_total :: nat
  attempt_percentage :: number

record player =
  username :: string
  allScores :: "attempt list"
  recentScore :: nat

definition newPlayer :: player where
  "newPlayer = \<lparr>username = ''Player'', allScores = [], recentScore = 0\<rparr>"

definition recordQuizAttempt :: "nat \<Rightarrow> nat \<Rightarrow> player \<Rightarrow> player" where
  "recordQuizAttempt pointsEarned totalPoints p =
     p\<lparr>allScores := allScores p @
        [\<lparr>attempt_score = pointsEarned, attempt_total = totalPoints,
          attempt_percentage = Math_round (js_times (js_divide pointsEarned totalPoints) 100)\<rparr>]\<rparr>"

definition clearCurrentScore :: "player \<Rightarrow> player" where
  "clearCurrentScore p = p\<lparr>recentScore := 0\<rparr>"

subsection \<open>Sorting with a comparison function that draws random numbers\<close>

text \<open>
  A comparison function takes the two elements and the number of draws made so far, and
  returns its result with the new number of draws. \<open>Array.prototype.sort\<close> is the host's:
  the language leaves the sequence of comparisons to the implementation. It is modelled
  as the insertion sort that walks from the left, and moves each element towards the
  front while \<open>comparefn tmp element\<close> is positive for the element \<open>tmp\<close> before it.
  In \<open>insert_element\<close> the part of the array that is already in order is held in reverse,
  its last element first.
\<close>

type_synonym 'a comparefn = "'a \<Rightarrow> 'a \<Rightarrow> nat \<Rightarrow> rat \<times> nat"

fun insert_element :: "'a comparefn \<Rightarrow> 'a \<Rightarrow> 'a list \<Rightarrow> nat \<Rightarrow> 'a list \<times> nat" where
  "insert_element comparefn element [] n = ([element], n)"
| "insert_element comparefn element (tmp # earlier) n =
     (let (order, n') = comparefn tmp element n
      in if 0 < order
         then (let (earlier', n'') = insert_element comparefn element earlier n'
               in (tmp # earlier', n''))
         else (element # tmp # earlier, n'))"

fun insertion_sort :: "'a comparefn \<Rightarrow> 'a list \<Rightarrow> 'a list \<Rightarrow> nat \<Rightarrow> 'a list \<times> nat" where
  "insertion_sort comparefn ordered [] n = (rev ordered, n)"
| "insertion_sort comparefn ordered (element # rest) n =
     (let (ordered', n') = insert_element comparefn element ordered n
      in insertion_sort comparefn ordered' rest n')"

definition Array_sort :: "'a comparefn \<Rightarrow> 'a list \<Rightarrow> nat \<Rightarrow> 'a list \<times> nat" where
  "Array_sort comparefn xs n = insertion_sort comparefn [] xs n"

text \<open>
  A second model of the host's sort, used only to show that the properties of the
  reordering do not rest on the choice of insertion sort: a merge sort that sorts the two
  halves of the array and merges them, taking from the left half unless \<open>comparefn\<close> of
  the two heads is positive.
\<close>

fun merge_lists :: "'a comparefn \<Rightarrow> 'a list \<Rightarrow> 'a list \<Rightarrow> nat \<Rightarrow> 'a list \<times> nat" where
  "merge_lists comparefn [] ys n = (ys, n)"
| "merge_lists comparefn (x # xs) [] n = (x # xs, n)"
| "merge_lists comparefn (x # xs) (y # ys) n =
     (let (order, n') = comparefn x y n
      in if 0 < order
         then (let (zs, n'') = merge_lists comparefn (x # xs) ys n' in (y # zs, n''))
         else (let (zs, n'') = merge_lists comparefn xs (y # ys) n' in (x # zs, n'')))"

function merge_sort :: "'a comparefn \<Rightarrow> 'a list \<Rightarrow> nat \<Rightarrow> 'a list \<times> nat" where
  "merge_sort comparefn xs n =
     (if length xs \<le> 1 then (xs, n)
      else (let half = length xs div 2;
                left = merge_sort comparefn (take half xs) n;
                right = merge_sort comparefn (drop half xs) (snd left)
            in merge_lists comparefn (fst left) (fst right) (snd right)))"
  by pat_completeness auto
termination
  by (relation "measure (\<lambda>(comparefn, xs, n). length xs)") auto

subsection \<open>The reordering of the remaining questions\<close>

text \<open>
  The arrow function given to \<open>sort\<close> in \<open>quizFlowGenerator\<close>, and the sort of
  \<open>remainingQs\<close> with it. The draw \<open>rnd n\<close> is the value of the \<open>n\<close>-th call of
  \<open>Math.random\<close>.
\<close>

definition compareQs :: "(nat \<Rightarrow> rat) \<Rightarrow> string \<Rightarrow> question comparefn" where
  "compareQs rnd targetDiff q1 q2 n =
     (if difficultyLevel q1 = targetDiff \<and> difficultyLevel q2 \<noteq> targetDiff then (- 1, n)
      else if difficultyLevel q2 = targetDiff \<and> difficultyLevel q1 \<noteq> targetDiff then (1, n)
      else (fl (rnd n - 1 / 2), Suc n))"

definition reorder :: "(nat \<Rightarrow> rat) \<Rightarrow> string \<Rightarrow> question list \<Rightarrow> nat \<Rightarrow> question list \<times> nat" where
  "reorder rnd targetDiff remainingQs n = Array_sort (compareQs rnd targetDiff) remainingQs n"

text \<open>
  What can be said of the order without fixing the host's sort. A sort learns the order
  of the elements from the results of \<open>comparefn\<close> only. \<open>comparisons\<close> gives the calls
  that a sort makes, in the order it makes them, with the results the arrow function of
  the script returns, the draws being taken in the order of the calls. A result that is
  not positive reports that the first argument may stand before the second, and a result
  that is not negative reports that the second may stand before the first. A list is
  \<open>justified\<close> by the calls when each of its elements is linked to its successor by a
  chain of such reports. A sort puts one element next to another on the strength of such
  reports, also when the comparison function contradicts itself; for the insertion sort
  above this is proved below.
\<close>

fun comparisons ::
  "(nat \<Rightarrow> rat) \<Rightarrow> string \<Rightarrow> (question \<times> question) list \<Rightarrow> nat \<Rightarrow>
     (question \<times> question \<times> rat) list" where
  "comparisons rnd targetDiff [] n = []"
| "comparisons rnd targetDiff ((q1, q2) # calls) n =
     (let (order, n') = compareQs rnd targetDiff q1 q2 n
      in (q1, q2, order) # comparisons rnd targetDiff calls n')"

definition reported_before :: "(question \<times> question \<times> rat) list \<Rightarrow> question \<Rightarrow> question \<Rightarrow> bool" where
  "reported_before results x y =
     (\<exists>(q1, q2, order) \<in> set results.
        (q1 = x \<and> q2 = y \<and> order \<le> 0) \<or> (q1 = y \<and> q2 = x \<and> 0 \<le> order))"

fun justified :: "(question \<times> question \<times> rat) list \<Rightarrow> question list \<Rightarrow> bool" where
  "justified results [] = True"
| "justified results [x] = True"
| "justified results (x # y # ys) =
     (rtranclp (reported_before results) x y \<and> justified results (y # ys))"

text \<open>
  The calls that the insertion sort above makes, in the order it makes them, and the
  number of draws after a list of calls.
\<close>

fun insert_calls :: "'a comparefn \<Rightarrow> 'a \<Rightarrow> 'a list \<Rightarrow> nat \<Rightarrow> ('a \<times> 'a) list" where
  "insert_calls comparefn element [] n = []"
| "insert_calls comparefn element (tmp # earlier) n =
     (let (order, n') = comparefn tmp element n
      in (tmp, element) # (if 0 < order then insert_calls comparefn element earlier n' else []))"

fun insertion_sort_calls :: "'a comparefn \<Rightarrow> 'a list \<Rightarrow> 'a list \<Rightarrow> nat \<Rightarrow> ('a \<times> 'a) list" where
  "insertion_sort_calls comparefn ordered [] n = []"
| "insertion_sort_calls comparefn ordered (element # rest) n =
     (let (ordered', n') = insert_element comparefn element ordered n
      in insert_calls comparefn element ordered n @
         insertion_sort_calls comparefn ordered' rest n')"

fun draws_after :: "(nat \<Rightarrow> rat) \<Rightarrow> string \<Rightarrow> (question \<times> question) list \<Rightarrow> nat \<Rightarrow> nat" where
  "draws_after rnd targetDiff [] n = n"
| "draws_after rnd targetDiff ((q1, q2) # calls) n =
     draws_after rnd targetDiff calls (snd (compareQs rnd targetDiff q1 q2 n))"

definition target_first :: "string \<Rightarrow> question list \<Rightarrow> bool" where
  \<comment> \<open>no question of another difficulty stands before one of the target difficulty\<close>
  "target_first targetDiff qs =
     sorted_wrt (\<lambda>q1 q2. difficultyLevel q2 = targetDiff \<longrightarrow> difficultyLevel q1 = targetDiff) qs"

subsection \<open>The state of \<open>Quiz\<close> and of the generator\<close>

text \<open>
  The generator object: where it is suspended, and its locals \<open>qIndex\<close> and
  \<open>correctCount\<close>. At a \<open>yield\<close> it holds the question \<open>q\<close> it yielded.
\<close>

datatype gen_status = SuspendedStart | SuspendedYield question | Completed

record generator =
  status :: gen_status
  qIndex :: nat
  correctCount :: nat

definition quizFlowGenerator :: generator where
  "quizFlowGenerator = \<lparr>status = SuspendedStart, qIndex = 0, correctCount = 0\<rparr>"

text \<open>
  What the script writes to the page: the question it displays (with its index and the
  score shown), the feedback on an answer, and the final result.
\<close>

datatype ui_event =
    ShowQuestion nat question nat
  | ShowFeedback bool string
  | ShowFinal nat nat number

datatype error = TypeError

text \<open>
  The fields of \<open>Quiz\<close>, and after them the state of the host that the methods change: the
  number of calls of \<open>Math.random\<close> made, whether the button \<open>next-btn\<close> is displayed, the
  number of \<open>finishQuiz\<close> callbacks that \<open>setTimeout\<close> has scheduled and that have not run,
  and what was written to the page.
\<close>

record quiz =
  playerObj :: player
  allQuestions :: "question list"
  currentQIndex :: nat
  totalScore :: nat
  quizRunning :: bool
  qGen :: "generator option"
  randomCalls :: nat
  nextBtnShown :: bool
  pendingTimers :: nat
  screen :: "ui_event list"

definition newQuiz :: "player \<Rightarrow> quiz" where
  "newQuiz p =
     \<lparr>playerObj = p, allQuestions = [], currentQIndex = 0, totalScore = 0,
      quizRunning = False, qGen = None, randomCalls = 0, nextBtnShown = False,
      pendingTimers = 0, screen = []\<rparr>"

subsection \<open>\<open>quizFlowGenerator\<close>: one call of \<open>next\<close>\<close>

definition gen_while :: "generator \<Rightarrow> quiz \<Rightarrow> bool \<times> generator \<times> quiz" where
  \<comment> \<open>the head of the \<open>while\<close> loop up to the \<open>yield\<close>, or the \<open>return\<close> after the loop\<close>
  "gen_while g s =
     (if qIndex g < length (allQuestions s)
      then (False, g\<lparr>status := SuspendedYield (allQuestions s ! qIndex g)\<rparr>, s)
      else (True, g\<lparr>status := Completed\<rparr>, s))"

definition adjust_difficulty :: "(nat \<Rightarrow> rat) \<Rightarrow> nat \<Rightarrow> nat \<Rightarrow> quiz \<Rightarrow> quiz" where
  \<comment> \<open>the block under \<open>ADAPTIVE DIFFICULTY\<close>, with the values of \<open>correctCount\<close> and \<open>qIndex\<close>\<close>
  "adjust_difficulty rnd cc qi s =
     (if qi < length (allQuestions s) \<and> 0 < qi
      then (let currentPerf = js_divide cc qi;
                targetDiff = calculateDificultyLevel currentPerf;
                remainingQs = drop qi (allQuestions s);
                (sortedQs, n) = reorder rnd targetDiff remainingQs (randomCalls s)
            in s\<lparr>allQuestions := take qi (allQuestions s) @ sortedQs, randomCalls := n\<rparr>)
      else s)"

definition gen_next ::
  "(nat \<Rightarrow> rat) \<Rightarrow> string option \<Rightarrow> generator \<Rightarrow> quiz \<Rightarrow> bool \<times> generator \<times> quiz" where
  \<comment> \<open>the result is \<open>done\<close>, the generator and the quiz after the call\<close>
  "gen_next rnd playerAnswer g s =
     (case status g of
        SuspendedStart \<Rightarrow> gen_while (g\<lparr>qIndex := 0, correctCount := 0\<rparr>) s
      | Completed \<Rightarrow> (True, g, s)
      | SuspendedYield q \<Rightarrow>
          (let isRightAnswer = validateAnswer q playerAnswer;
               cc = (if isRightAnswer then correctCount g + 1 else correctCount g);
               qi = qIndex g + 1
           in gen_while (g\<lparr>qIndex := qi, correctCount := cc\<rparr>) (adjust_difficulty rnd cc qi s)))"

subsection \<open>The methods of \<open>Quiz\<close>\<close>

definition finishQuiz :: "quiz \<Rightarrow> quiz" where
  "finishQuiz s =
     (let s1 = s\<lparr>quizRunning := False\<rparr>;
          s2 = s1\<lparr>playerObj :=
                 recordQuizAttempt (totalScore s1) (length (allQuestions s1)) (playerObj s1)\<rparr>;
          finalPercent =
            Math_round (js_times (js_divide (totalScore s2) (length (allQuestions s2))) 100)
      in s2\<lparr>screen := screen s2 @
             [ShowFinal (totalScore s2) (length (allQuestions s2)) finalPercent]\<rparr>)"

definition displayCurrentQuestion :: "quiz \<Rightarrow> quiz" where
  "displayCurrentQuestion s =
     (if length (allQuestions s) \<le> currentQIndex s then finishQuiz s
      else (let currentQ = allQuestions s ! currentQIndex s
            in s\<lparr>screen := screen s @ [ShowQuestion (currentQIndex s) currentQ (totalScore s)],
                 nextBtnShown := False\<rparr>))"

definition initializeQuiz :: "(nat \<Rightarrow> rat) \<Rightarrow> quiz \<Rightarrow> error + quiz" where
  "initializeQuiz rnd s =
     (let s1 = s\<lparr>quizRunning := True, currentQIndex := 0, totalScore := 0,
                 playerObj := clearCurrentScore (playerObj s)\<rparr>
      in case qGen s1 of
           None \<Rightarrow> Inl TypeError
         | Some g \<Rightarrow>
             (let (genDone, g', s2) = gen_next rnd None g s1;
                  s3 = s2\<lparr>qGen := Some g'\<rparr>
              in Inr (if \<not> genDone then displayCurrentQuestion s3 else s3)))"

definition selectAnswer :: "(nat \<Rightarrow> rat) \<Rightarrow> string \<Rightarrow> quiz \<Rightarrow> error + quiz" where
  "selectAnswer rnd chosenAnswer s =
     (if \<not> quizRunning s then Inr s
      else if length (allQuestions s) \<le> currentQIndex s then Inl TypeError
      else
        (let currentQ = allQuestions s ! currentQIndex s;
             answerIsRight = validateAnswer currentQ (Some chosenAnswer);
             s1 = (if answerIsRight
                   then s\<lparr>totalScore := totalScore s + 1,
                          playerObj := (playerObj s)\<lparr>recentScore := recentScore (playerObj s) + 1\<rparr>\<rparr>
                   else s);
             s2 = s1\<lparr>screen := screen s1 @ [ShowFeedback answerIsRight (correctAns currentQ)]\<rparr>
         in case qGen s2 of
              None \<Rightarrow> Inl TypeError
            | Some g \<Rightarrow>
                (let (genDone, g', s3) = gen_next rnd (Some chosenAnswer) g s2;
                     s4 = s3\<lparr>qGen := Some g'\<rparr>
                 in Inr (if \<not> genDone then s4\<lparr>nextBtnShown := True\<rparr>
                         else s4\<lparr>pendingTimers := pendingTimers s4 + 1\<rparr>))))"

definition moveToNextQ :: "quiz \<Rightarrow> quiz" where
  "moveToNextQ s = displayCurrentQuestion (s\<lparr>currentQIndex := currentQIndex s + 1\<rparr>)"

definition timerFires :: "quiz \<Rightarrow> quiz" where
  \<comment> \<open>the host runs one callback scheduled by \<open>setTimeout\<close> in \<open>selectAnswer\<close>\<close>
  "timerFires s =
     (if pendingTimers s = 0 then s
      else finishQuiz (s\<lparr>pendingTimers := pendingTimers s - 1\<rparr>))"

definition startQuiz :: "(nat \<Rightarrow> rat) \<Rightarrow> question list \<Rightarrow> quiz \<Rightarrow> error + quiz" where
  \<comment> \<open>\<open>QuizApp.init\<close> and \<open>Quiz.restartQuiz\<close> once the request has produced the questions:
      a new generator, then \<open>initializeQuiz\<close>\<close>
  "startQuiz rnd questions s =
     initializeQuiz rnd (s\<lparr>allQuestions := questions, qGen := Some quizFlowGenerator\<rparr>)"

subsection \<open>A player who answers every question\<close>

text \<open>
  After an answer the page offers one way on: the button \<open>next-btn\<close> when it is displayed
  (its listener is \<open>moveToNextQ\<close>), and otherwise the timer that \<open>selectAnswer\<close> started
  after the last question. \<open>play\<close> submits the answers in turn, going on in this way
  after each; \<open>answered\<close> lists the states right after each call of \<open>selectAnswer\<close>.
\<close>

definition advance :: "quiz \<Rightarrow> quiz" where
  "advance s = (if nextBtnShown s then moveToNextQ s else timerFires s)"

fun play :: "(nat \<Rightarrow> rat) \<Rightarrow> string list \<Rightarrow> quiz \<Rightarrow> error + quiz" where
  "play rnd [] s = Inr s"
| "play rnd (a # as) s =
     (case selectAnswer rnd a s of
        Inl e \<Rightarrow> Inl e
      | Inr s' \<Rightarrow> play rnd as (advance s'))"

fun answered :: "(nat \<Rightarrow> rat) \<Rightarrow> string list \<Rightarrow> quiz \<Rightarrow> quiz list" where
  "answered rnd [] s = []"
| "answered rnd (a # as) s =
     (case selectAnswer rnd a s of
        Inl e \<Rightarrow> []
      | Inr s' \<Rightarrow> s' # answered rnd as (advance s'))"

fun completions :: "ui_event list \<Rightarrow> (nat \<times> nat) list" where
  \<comment> \<open>score and total of the final results written\<close>
  "completions [] = []"
| "completions (ShowFinal sc tot pct # es) = (sc, tot) # completions es"
| "completions (e # es) = completions es"

fun right_answers :: "ui_event list \<Rightarrow> nat" where
  \<comment> \<open>the number of answers that \<open>validateAnswer\<close> accepted\<close>
  "right_answers [] = 0"
| "right_answers (ShowFeedback b c # es) = (if b then Suc (right_answers es) else right_answers es)"
| "right_answers (e # es) = right_answers es"

fun displayed :: "ui_event list \<Rightarrow> question list" where
  \<comment> \<open>the questions displayed, in the order of their display\<close>
  "displayed [] = []"
| "displayed (ShowQuestion k q sc # es) = q # displayed es"
| "displayed (e # es) = displayed es"

fun matching :: "question list \<Rightarrow> string list \<Rightarrow> nat" where
  \<comment> \<open>the number of answers that are equal to the correct choice of the question at the
      same place in the list of questions; answers beyond the questions do not count\<close>
  "matching [] as = 0"
| "matching (q # qs) [] = 0"
| "matching (q # qs) (a # as) =
     (if a = correctAns q then Suc (matching qs as) else matching qs as)"

definition constant_draws :: "rat \<Rightarrow> nat \<Rightarrow> rat" where
  \<comment> \<open>a random source that returns the same value at every call\<close>
  "constant_draws r n = r"

definition sample_question :: "string \<Rightarrow> string \<Rightarrow> question" where
  "sample_question answer difficulty =
     \<lparr>questionText = ''Q'', answerChoices = [answer, ''other''], correctAns = answer,
      difficultyLevel = difficulty\<rparr>"

definition sample_batch :: "question list" where
  "sample_batch =
     [sample_question ''a'' ''easy'', sample_question ''c'' ''medium'', sample_question ''b'' ''hard'']"

definition sample_started :: quiz where
  \<comment> \<open>the state after \<open>startQuiz\<close> on \<open>sample_batch\<close> from a new quiz\<close>
  "sample_started =
     \<lparr>playerObj = newPlayer, allQuestions = sample_batch, currentQIndex = 0, totalScore = 0,
      quizRunning = True,
      qGen = Some \<lparr>status = SuspendedYield (sample_question ''a'' ''easy''), qIndex = 0,
                    correctCount = 0\<rparr>,
      randomCalls = 0, nextBtnShown = False, pendingTimers = 0,
      screen = [ShowQuestion 0 (sample_question ''a'' ''easy'') 0]\<rparr>"

subsection \<open>Predicates used in the proofs\<close>

definition target_last :: "string \<Rightarrow> question list \<Rightarrow> bool" where
  \<comment> \<open>\<open>target_first\<close> for a list held in reverse\<close>
  "target_last targetDiff qs =
     sorted_wrt (\<lambda>q1 q2. difficultyLevel q1 = targetDiff \<longrightarrow> difficultyLevel q2 = targetDiff) qs"

definition awaiting_answer :: "nat \<Rightarrow> quiz \<Rightarrow> bool" where
  \<comment> \<open>question \<open>k\<close> is displayed, and the generator is suspended at the \<open>yield\<close> of the
      same question with the same count of right answers\<close>
  "awaiting_answer k s =
     (quizRunning s \<and> currentQIndex s = k \<and> k < length (allQuestions s) \<and>
      qGen s = Some \<lparr>status = SuspendedYield (allQuestions s ! k), qIndex = k,
                      correctCount = totalScore s\<rparr> \<and>
      pendingTimers s = 0 \<and> \<not> nextBtnShown s)"

definition finished :: "quiz \<Rightarrow> bool" where
  \<comment> \<open>the quiz is over and the page offers no way on\<close>
  "finished s = (\<not> quizRunning s \<and> \<not> nextBtnShown s \<and> pendingTimers s = 0)"

definition counts_agree :: "quiz \<Rightarrow> bool" where
  \<comment> \<open>\<open>correctCount\<close> of the generator equals \<open>totalScore\<close>\<close>
  "counts_agree s = (case qGen s of None \<Rightarrow> False | Some g \<Rightarrow> correctCount g = totalScore s)"

definition after_answer :: "nat \<Rightarrow> bool \<Rightarrow> quiz \<Rightarrow> quiz \<Rightarrow> bool" where
  \<comment> \<open>\<open>s1\<close> is the state right after \<open>selectAnswer\<close> on question \<open>k\<close> displayed in \<open>s\<close>,
      with \<open>b\<close> the result of \<open>validateAnswer\<close>\<close>
  "after_answer k b s s1 =
     (quizRunning s1 \<and> currentQIndex s1 = k \<and>
      totalScore s1 = (if b then totalScore s + 1 else totalScore s) \<and>
      length (allQuestions s1) = length (allQuestions s) \<and>
      qGen s1 = Some \<lparr>status = (if Suc k < length (allQuestions s)
                                   then SuspendedYield (allQuestions s1 ! Suc k) else Completed),
                       qIndex = Suc k, correctCount = totalScore s1\<rparr> \<and>
      nextBtnShown s1 = (Suc k < length (allQuestions s)) \<and>
      pendingTimers s1 = (if Suc k < length (allQuestions s) then 0 else 1) \<and>
      screen s1 = screen s @ [ShowFeedback b (correctAns (allQuestions s ! k))] \<and>
      allScores (playerObj s1) = allScores (playerObj s))"

definition completed_from :: "quiz \<Rightarrow> quiz \<Rightarrow> bool" where
  \<comment> \<open>\<open>s'\<close> is the state at the end of the quiz that was in progress in \<open>s\<close>\<close>
  "completed_from s s' =
     (finished s' \<and> counts_agree s' \<and>
      length (allQuestions s') = length (allQuestions s) \<and>
      completions (screen s') =
        completions (screen s) @ [(totalScore s', length (allQuestions s))] \<and>
      right_answers (screen s') + totalScore s = right_answers (screen s) + totalScore s' \<and>
      allScores (playerObj s') = allScores (playerObj s) @
        [\<lparr>attempt_score = totalScore s', attempt_total = length (allQuestions s),
          attempt_percentage =
            Math_round (js_times (js_divide (totalScore s') (length (allQuestions s))) 100)\<rparr>])"


section \<open>Properties\<close>

subsection \<open>The sort keeps the elements\<close>

lemma mset_insert_element:
  "mset (fst (insert_element comparefn element xs n)) = add_mset element (mset xs)"
proof (induction xs arbitrary: n)
  case Nil
  show ?case by simp
next
  case (Cons tmp earlier)
  obtain order n' where c: "comparefn tmp element n = (order, n')"
    by (cases "comparefn tmp element n")
  obtain earlier' n'' where r: "insert_element comparefn element earlier n' = (earlier', n'')"
    by (cases "insert_element comparefn element earlier n'")
  have "mset earlier' = add_mset element (mset earlier)"
    using Cons.IH [of n'] r by simp
  then show ?case
    using c r by simp
qed

lemma mset_insertion_sort:
  "mset (fst (insertion_sort comparefn ordered xs n)) = mset ordered + mset xs"
proof (induction xs arbitrary: ordered n)
  case Nil
  show ?case by simp
next
  case (Cons x xs)
  obtain ordered' n' where ins: "insert_element comparefn x ordered n = (ordered', n')"
    by (cases "insert_element comparefn x ordered n")
  have "mset ordered' = add_mset x (mset ordered)"
    using mset_insert_element [of comparefn x ordered n] ins by simp
  then show ?case
    using Cons.IH [of ordered' n'] ins by simp
qed

lemma set_insert_element:
  "set (fst (insert_element comparefn element xs n)) = insert element (set xs)"
  using mset_insert_element [of comparefn element xs n]
  by (metis set_mset_add_mset_insert set_mset_mset)

subsection \<open>The sort puts the target difficulty first\<close>

lemma target_first_rev: "target_first t (rev qs) = target_last t qs"
  by (simp add: target_first_def target_last_def sorted_wrt_rev)

lemma target_last_Cons:
  "target_last t (x # xs) =
     ((\<forall>z \<in> set xs. difficultyLevel x = t \<longrightarrow> difficultyLevel z = t) \<and> target_last t xs)"
  by (simp add: target_last_def)

lemma compareQs_positive:
  assumes "0 < fst (compareQs rnd t q1 q2 n)" and "difficultyLevel q1 = t"
  shows "difficultyLevel q2 = t"
proof (rule ccontr)
  assume "difficultyLevel q2 \<noteq> t"
  then have "compareQs rnd t q1 q2 n = (- 1, n)"
    using assms(2) by (simp add: compareQs_def)
  then show False
    using assms(1) by simp
qed

lemma compareQs_not_positive:
  assumes "\<not> 0 < fst (compareQs rnd t q1 q2 n)" and "difficultyLevel q2 = t"
  shows "difficultyLevel q1 = t"
proof (rule ccontr)
  assume "difficultyLevel q1 \<noteq> t"
  then have "compareQs rnd t q1 q2 n = (1, n)"
    using assms(2) by (simp add: compareQs_def)
  then show False
    using assms(1) by simp
qed

lemma target_last_insert_element:
  "target_last t qs \<Longrightarrow> target_last t (fst (insert_element (compareQs rnd t) q qs n))"
proof (induction qs arbitrary: n)
  case Nil
  show ?case by (simp add: target_last_def)
next
  case (Cons tmp earlier)
  obtain order n' where c: "compareQs rnd t tmp q n = (order, n')"
    by (cases "compareQs rnd t tmp q n")
  have tl: "target_last t earlier"
    using Cons.prems by (simp only: target_last_Cons)
  have hd: "\<And>z. z \<in> set earlier \<Longrightarrow> difficultyLevel tmp = t \<Longrightarrow> difficultyLevel z = t"
    using Cons.prems by (simp only: target_last_Cons)
  show ?case
  proof (cases "0 < order")
    case True
    obtain earlier' n'' where r: "insert_element (compareQs rnd t) q earlier n' = (earlier', n'')"
      by (cases "insert_element (compareQs rnd t) q earlier n'")
    have res: "insert_element (compareQs rnd t) q (tmp # earlier) n = (tmp # earlier', n'')"
      using True c r by simp
    have tl': "target_last t earlier'"
      using Cons.IH [OF tl, of n'] r by simp
    have mem: "set earlier' = insert q (set earlier)"
      using set_insert_element [of "compareQs rnd t" q earlier n'] r by simp
    have "difficultyLevel z = t" if "z \<in> set earlier'" and d: "difficultyLevel tmp = t" for z
    proof (cases "z = q")
      case True
      have "0 < fst (compareQs rnd t tmp q n)"
        using \<open>0 < order\<close> c by simp
      then show ?thesis
        using compareQs_positive [of rnd t tmp q n] d True by simp
    next
      case False
      then have "z \<in> set earlier"
        using that(1) mem by simp
      then show ?thesis
        using hd d by simp
    qed
    then have "target_last t (tmp # earlier')"
      using tl' by (simp only: target_last_Cons) blast
    then show ?thesis
      by (simp only: res fst_conv)
  next
    case False
    have res: "insert_element (compareQs rnd t) q (tmp # earlier) n = (q # tmp # earlier, n')"
      using False c by simp
    have "\<not> 0 < fst (compareQs rnd t tmp q n)"
      using False c by simp
    then have step: "difficultyLevel q = t \<Longrightarrow> difficultyLevel tmp = t"
      using compareQs_not_positive [of rnd t tmp q n] by simp
    have "difficultyLevel z = t" if "z \<in> set (tmp # earlier)" and d: "difficultyLevel q = t" for z
    proof (cases "z = tmp")
      case True
      then show ?thesis using step d by simp
    next
      case False
      then have "z \<in> set earlier"
        using that(1) by simp
      then show ?thesis
        using hd step d by simp
    qed
    then have "target_last t (q # tmp # earlier)"
      using Cons.prems by (simp only: target_last_Cons [of t q]) blast
    then show ?thesis
      by (simp only: res fst_conv)
  qed
qed

lemma target_first_insertion_sort:
  "target_last t ordered \<Longrightarrow>
   target_first t (fst (insertion_sort (compareQs rnd t) ordered qs n))"
proof (induction qs arbitrary: ordered n)
  case Nil
  then show ?case by (simp add: target_first_rev)
next
  case (Cons q qs)
  obtain ordered' n' where ins: "insert_element (compareQs rnd t) q ordered n = (ordered', n')"
    by (cases "insert_element (compareQs rnd t) q ordered n")
  have "target_last t ordered'"
    using target_last_insert_element [OF Cons.prems, of rnd q n] ins by simp
  then show ?case
    using Cons.IH [of ordered' n'] ins by simp
qed

lemma target_first_reorder: "target_first targetDiff (fst (reorder rnd targetDiff remainingQs n))"
  unfolding reorder_def Array_sort_def
  by (rule target_first_insertion_sort) (simp add: target_last_def)

lemma target_first_nth:
  "target_first t qs =
     (\<forall>i j. i < j \<longrightarrow> j < length qs \<longrightarrow>
        difficultyLevel (qs ! j) = t \<longrightarrow> difficultyLevel (qs ! i) = t)"
  by (auto simp: target_first_def sorted_wrt_iff_nth_less)

lemma reorder_positions:
  assumes "sortedQs = fst (reorder rnd targetDiff remainingQs n)"
    and "i < length sortedQs" and "j < length sortedQs"
    and "difficultyLevel (sortedQs ! i) = targetDiff"
    and "difficultyLevel (sortedQs ! j) \<noteq> targetDiff"
  shows "i < j"
proof (rule ccontr)
  assume "\<not> i < j"
  moreover have "i \<noteq> j"
    using assms(4) assms(5) by auto
  ultimately have "j < i"
    by simp
  moreover have "target_first targetDiff sortedQs"
    unfolding assms(1) by (rule target_first_reorder)
  ultimately have "difficultyLevel (sortedQs ! j) = targetDiff"
    using assms(2) assms(4) unfolding target_first_nth by blast
  then show False
    using assms(5) by simp
qed

subsection \<open>The target difficulty comes first, whatever the sort\<close>

lemma compareQs_not_negative:
  assumes "\<not> fst (compareQs rnd t q1 q2 n) < 0" and "difficultyLevel q1 = t"
  shows "difficultyLevel q2 = t"
proof (rule ccontr)
  assume "difficultyLevel q2 \<noteq> t"
  then have "compareQs rnd t q1 q2 n = (- 1, n)"
    using assms(2) by (simp add: compareQs_def)
  then show False
    using assms(1) by simp
qed

lemma comparisons_result:
  "(q1, q2, order) \<in> set (comparisons rnd t calls n) \<Longrightarrow>
   \<exists>m. order = fst (compareQs rnd t q1 q2 m)"
proof (induction calls arbitrary: n)
  case Nil
  then show ?case by simp
next
  case (Cons c calls)
  obtain x y where c: "c = (x, y)"
    by (cases c)
  obtain r n' where r: "compareQs rnd t x y n = (r, n')"
    by (cases "compareQs rnd t x y n")
  have "(q1, q2, order) = (x, y, r) \<or> (q1, q2, order) \<in> set (comparisons rnd t calls n')"
    using Cons.prems c r by simp
  then show ?case
  proof
    assume "(q1, q2, order) = (x, y, r)"
    then have "order = fst (compareQs rnd t q1 q2 n)"
      using r by simp
    then show ?thesis by blast
  next
    assume "(q1, q2, order) \<in> set (comparisons rnd t calls n')"
    then show ?thesis
      using Cons.IH by blast
  qed
qed

lemma reported_before_other:
  assumes "reported_before (comparisons rnd t calls n) x y" and "difficultyLevel x \<noteq> t"
  shows "difficultyLevel y \<noteq> t"
proof -
  obtain q1 q2 order where mem: "(q1, q2, order) \<in> set (comparisons rnd t calls n)"
    and dir: "(q1 = x \<and> q2 = y \<and> order \<le> 0) \<or> (q1 = y \<and> q2 = x \<and> 0 \<le> order)"
    using assms(1) unfolding reported_before_def by blast
  obtain m where m: "order = fst (compareQs rnd t q1 q2 m)"
    using comparisons_result [OF mem] by blast
  show ?thesis
    using dir
  proof
    assume a: "q1 = x \<and> q2 = y \<and> order \<le> 0"
    then have "\<not> 0 < fst (compareQs rnd t x y m)"
      using m by auto
    then show ?thesis
      using compareQs_not_positive [of rnd t x y m] assms(2) by blast
  next
    assume a: "q1 = y \<and> q2 = x \<and> 0 \<le> order"
    then have "\<not> fst (compareQs rnd t y x m) < 0"
      using m by auto
    then show ?thesis
      using compareQs_not_negative [of rnd t y x m] assms(2) by blast
  qed
qed

lemma chain_other:
  assumes "rtranclp (reported_before (comparisons rnd t calls n)) x y"
    and "difficultyLevel x \<noteq> t"
  shows "difficultyLevel y \<noteq> t"
  using assms
proof (induction rule: rtranclp_induct)
  case base
  then show ?case by simp
next
  case (step y z)
  then show ?case
    using reported_before_other [of rnd t calls n y z] by blast
qed

lemma justified_Suc:
  "justified results ys \<Longrightarrow> Suc k < length ys \<Longrightarrow>
   rtranclp (reported_before results) (ys ! k) (ys ! Suc k)"
proof (induction results ys arbitrary: k rule: justified.induct)
  case (1 results)
  then show ?case by simp
next
  case (2 results x)
  then show ?case by simp
next
  case (3 results x y ys)
  show ?case
  proof (cases k)
    case 0
    then show ?thesis
      using "3.prems"(1) by simp
  next
    case (Suc k')
    then show ?thesis
      using "3.IH" [of k'] "3.prems" by simp
  qed
qed

lemma justified_chain:
  assumes "justified results ys" and "l < length ys"
  shows "k \<le> l \<Longrightarrow> rtranclp (reported_before results) (ys ! k) (ys ! l)"
  using assms(2)
proof (induction l)
  case 0
  then show ?case by simp
next
  case (Suc l)
  show ?case
  proof (cases "k = Suc l")
    case True
    then show ?thesis by simp
  next
    case False
    then have "k \<le> l"
      using Suc.prems(1) by simp
    then have "rtranclp (reported_before results) (ys ! k) (ys ! l)"
      using Suc.IH Suc.prems(2) by simp
    moreover have "rtranclp (reported_before results) (ys ! l) (ys ! Suc l)"
      using justified_Suc [OF assms(1) Suc.prems(2)] .
    ultimately show ?thesis
      by (rule rtranclp_trans)
  qed
qed

text \<open>
  C2. The tail is sorted by the host with the arrow function of the script. For every
  target difficulty, every sequence of random draws and every number of earlier draws,
  whatever calls of the arrow function the sort makes, on whatever questions and in
  whatever order: in every list whose order the results of these calls justify, every
  question whose difficulty equals the target stands at a smaller index than every
  question whose difficulty does not.
\<close>

theorem sorted_with_compareQs_target_first:
  assumes "justified (comparisons rnd targetDiff calls n) sortedQs"
    and "i < length sortedQs" and "j < length sortedQs"
    and "difficultyLevel (sortedQs ! i) = targetDiff"
    and "difficultyLevel (sortedQs ! j) \<noteq> targetDiff"
  shows "i < j"
proof (rule ccontr)
  assume "\<not> i < j"
  then have "j \<le> i"
    by simp
  then have "rtranclp (reported_before (comparisons rnd targetDiff calls n))
               (sortedQs ! j) (sortedQs ! i)"
    using justified_chain [OF assms(1) assms(2)] by simp
  then have "difficultyLevel (sortedQs ! i) \<noteq> targetDiff"
    using chain_other [of rnd targetDiff calls n "sortedQs ! j" "sortedQs ! i"] assms(5)
    by blast
  then show False
    using assms(4) by simp
qed

text \<open>
  A sort that finds the tail \<open>sample_batch\<close> in descending order: it compares the second
  question with the first and the third with the second, both results are negative,
  and it returns the tail reversed.
\<close>

theorem sorted_with_compareQs_target_first_witness:
  "comparisons (constant_draws 0) ''hard''
     [(sample_question ''c'' ''medium'', sample_question ''a'' ''easy''),
      (sample_question ''b'' ''hard'', sample_question ''c'' ''medium'')] 0 =
     [(sample_question ''c'' ''medium'', sample_question ''a'' ''easy'', - (1 / 2)),
      (sample_question ''b'' ''hard'', sample_question ''c'' ''medium'', - 1)] \<and>
   justified
     [(sample_question ''c'' ''medium'', sample_question ''a'' ''easy'', - (1 / 2)),
      (sample_question ''b'' ''hard'', sample_question ''c'' ''medium'', - 1)]
     (rev sample_batch) \<and>
   rev sample_batch =
     [sample_question ''b'' ''hard'', sample_question ''c'' ''medium'',
      sample_question ''a'' ''easy''] \<and>
   difficultyLevel (rev sample_batch ! 0) = ''hard'' \<and>
   difficultyLevel (rev sample_batch ! 2) \<noteq> ''hard'' \<and>
   (0::nat) < 2"
proof -
  define results where "results =
     [(sample_question ''c'' ''medium'', sample_question ''a'' ''easy'', - (1 / 2) :: rat),
      (sample_question ''b'' ''hard'', sample_question ''c'' ''medium'', - 1)]"
  have c: "comparisons (constant_draws 0) ''hard''
     [(sample_question ''c'' ''medium'', sample_question ''a'' ''easy''),
      (sample_question ''b'' ''hard'', sample_question ''c'' ''medium'')] 0 = results"
    unfolding results_def by code_simp
  have r: "rev sample_batch =
     [sample_question ''b'' ''hard'', sample_question ''c'' ''medium'',
      sample_question ''a'' ''easy'']"
    by (simp add: sample_batch_def)
  have "reported_before results (sample_question ''b'' ''hard'') (sample_question ''c'' ''medium'')"
    by (simp add: reported_before_def results_def)
  moreover have "reported_before results (sample_question ''c'' ''medium'')
                   (sample_question ''a'' ''easy'')"
    by (simp add: reported_before_def results_def)
  ultimately have j: "justified results (rev sample_batch)"
    unfolding r by (simp add: r_into_rtranclp)
  have d: "difficultyLevel (rev sample_batch ! 0) = ''hard''"
    "difficultyLevel (rev sample_batch ! 2) \<noteq> ''hard''"
    unfolding r by (simp_all add: sample_question_def)
  have l: "0 < length (rev sample_batch)" "2 < length (rev sample_batch)"
    unfolding r by simp_all
  have "(0::nat) < 2"
    using sorted_with_compareQs_target_first [OF j [folded c] l d] .
  then show ?thesis
    using c j r d unfolding results_def by blast
qed

subsection \<open>The insertion sort returns a justified list\<close>

lemma justified_successively:
  "justified results ys = successively (rtranclp (reported_before results)) ys"
  by (induction results ys rule: justified.induct) simp_all

lemma reported_before_first:
  assumes "(x, y, order) \<in> set results" and "order \<le> 0"
  shows "reported_before results x y"
  unfolding reported_before_def using assms
  by (intro bexI [of _ "(x, y, order)"]) simp_all

lemma reported_before_second:
  assumes "(y, x, order) \<in> set results" and "0 \<le> order"
  shows "reported_before results x y"
  unfolding reported_before_def using assms
  by (intro bexI [of _ "(y, x, order)"]) simp_all

lemma reported_before_mono:
  "set results \<subseteq> set results' \<Longrightarrow> reported_before results x y \<Longrightarrow>
   reported_before results' x y"
  unfolding reported_before_def by blast

lemma chain_mono:
  assumes "set results \<subseteq> set results'"
    and "rtranclp (reported_before results) x y"
  shows "rtranclp (reported_before results') x y"
  using assms(2)
proof (induction rule: rtranclp_induct)
  case base
  show ?case by simp
next
  case (step y z)
  have "reported_before results' y z"
    using reported_before_mono [OF assms(1) step.hyps(2)] .
  then show ?case
    using step.IH by (rule rtranclp.rtrancl_into_rtrancl [rotated])
qed

lemma comparisons_append:
  "comparisons rnd t (cs @ ds) n =
     comparisons rnd t cs n @ comparisons rnd t ds (draws_after rnd t cs n)"
proof (induction cs arbitrary: n)
  case Nil
  show ?case by simp
next
  case (Cons c cs)
  obtain q1 q2 where c: "c = (q1, q2)"
    by (cases c)
  obtain order n' where r: "compareQs rnd t q1 q2 n = (order, n')"
    by (cases "compareQs rnd t q1 q2 n")
  show ?case
    using Cons.IH [of n'] by (simp add: c r)
qed

lemma draws_after_insert_calls:
  "draws_after rnd t (insert_calls (compareQs rnd t) q qs n) n =
     snd (insert_element (compareQs rnd t) q qs n)"
proof (induction qs arbitrary: n)
  case Nil
  show ?case by simp
next
  case (Cons tmp earlier)
  obtain order n' where c: "compareQs rnd t tmp q n = (order, n')"
    by (cases "compareQs rnd t tmp q n")
  show ?case
  proof (cases "0 < order")
    case True
    obtain earlier' n'' where r: "insert_element (compareQs rnd t) q earlier n' = (earlier', n'')"
      by (cases "insert_element (compareQs rnd t) q earlier n'")
    show ?thesis
      using Cons.IH [of n'] True by (simp add: c r)
  next
    case False
    then show ?thesis
      by (simp add: c)
  qed
qed

text \<open>
  One insertion. The part in order is held in reverse, so each of its elements must be
  linked to the element before it in that list.
\<close>

lemma insert_element_justified:
  assumes "successively (\<lambda>x y. rtranclp (reported_before results) y x) qs"
  shows "successively
           (\<lambda>x y. rtranclp (reported_before
              (results @ comparisons rnd t (insert_calls (compareQs rnd t) q qs n) n)) y x)
           (fst (insert_element (compareQs rnd t) q qs n))"
  using assms
proof (induction qs arbitrary: n)
  case Nil
  show ?case by simp
next
  case (Cons tmp earlier)
  obtain order n' where c: "compareQs rnd t tmp q n = (order, n')"
    by (cases "compareQs rnd t tmp q n")
  define all where
    "all = results @ comparisons rnd t (insert_calls (compareQs rnd t) q (tmp # earlier) n) n"
  have call: "(tmp, q, order) \<in> set all"
    by (simp add: all_def c)
  have old: "set results \<subseteq> set all"
    by (simp add: all_def)
  have kept: "successively (\<lambda>x y. rtranclp (reported_before all) y x) (tmp # earlier)"
    using Cons.prems chain_mono [OF old] by (rule successively_mono)
  show ?case
  proof (cases "0 < order")
    case True
    obtain earlier' n'' where r: "insert_element (compareQs rnd t) q earlier n' = (earlier', n'')"
      by (cases "insert_element (compareQs rnd t) q earlier n'")
    define part where
      "part = results @ comparisons rnd t (insert_calls (compareQs rnd t) q earlier n') n'"
    have sub: "set part \<subseteq> set all"
      using True by (auto simp: part_def all_def c)
    have "successively (\<lambda>x y. rtranclp (reported_before results) y x) earlier"
      using Cons.prems by (auto simp: successively_Cons)
    then have "successively (\<lambda>x y. rtranclp (reported_before part) y x) earlier'"
      using Cons.IH [of n'] r by (simp add: part_def)
    then have rest: "successively (\<lambda>x y. rtranclp (reported_before all) y x) earlier'"
      using chain_mono [OF sub] by (rule successively_mono)
    have ne: "earlier' \<noteq> []"
      using mset_insert_element [of "compareQs rnd t" q earlier n'] r by auto
    have hd: "hd earlier' = q \<or> (earlier \<noteq> [] \<and> hd earlier' = hd earlier)"
      using r by (cases earlier) (auto simp: Let_def split: prod.splits if_splits)
    have "rtranclp (reported_before all) (hd earlier') tmp"
      using hd
    proof
      assume "hd earlier' = q"
      moreover have "reported_before all q tmp"
        using reported_before_second [OF call] True by simp
      ultimately show ?thesis
        by (simp add: r_into_rtranclp)
    next
      assume "earlier \<noteq> [] \<and> hd earlier' = hd earlier"
      then show ?thesis
        using kept by (simp add: successively_Cons)
    qed
    then have "successively (\<lambda>x y. rtranclp (reported_before all) y x) (tmp # earlier')"
      using rest ne by (simp add: successively_Cons)
    moreover have "fst (insert_element (compareQs rnd t) q (tmp # earlier) n) = tmp # earlier'"
      using True c r by simp
    ultimately show ?thesis
      unfolding all_def by simp
  next
    case False
    have "reported_before all tmp q"
      using reported_before_first [OF call] False by simp
    then have "successively (\<lambda>x y. rtranclp (reported_before all) y x) (q # tmp # earlier)"
      using kept by (simp add: r_into_rtranclp)
    moreover have "fst (insert_element (compareQs rnd t) q (tmp # earlier) n) = q # tmp # earlier"
      using False c by simp
    ultimately show ?thesis
      unfolding all_def by simp
  qed
qed

lemma insertion_sort_justified:
  assumes "successively (\<lambda>x y. rtranclp (reported_before results) y x) ordered"
  shows "justified
           (results @ comparisons rnd t (insertion_sort_calls (compareQs rnd t) ordered qs n) n)
           (fst (insertion_sort (compareQs rnd t) ordered qs n))"
  using assms
proof (induction qs arbitrary: results ordered n)
  case Nil
  then show ?case
    by (simp add: justified_successively)
next
  case (Cons q qs)
  obtain ordered' n' where ins: "insert_element (compareQs rnd t) q ordered n = (ordered', n')"
    by (cases "insert_element (compareQs rnd t) q ordered n")
  define first where "first = comparisons rnd t (insert_calls (compareQs rnd t) q ordered n) n"
  have "successively (\<lambda>x y. rtranclp (reported_before (results @ first)) y x) ordered'"
    using insert_element_justified [OF Cons.prems, of rnd t q n] ins by (simp add: first_def)
  then have "justified
      ((results @ first) @
         comparisons rnd t (insertion_sort_calls (compareQs rnd t) ordered' qs n') n')
      (fst (insertion_sort (compareQs rnd t) ordered' qs n'))"
    by (rule Cons.IH)
  moreover have "draws_after rnd t (insert_calls (compareQs rnd t) q ordered n) n = n'"
    using draws_after_insert_calls [of rnd t q ordered n] ins by simp
  ultimately show ?case
    using ins by (simp add: comparisons_append first_def)
qed

text \<open>
  The insertion sort that stands for the host's sort in \<open>reorder\<close> is a sort of this
  kind: the list it returns is justified by the calls it makes.
\<close>

lemma reorder_justified:
  "justified
     (comparisons rnd targetDiff
        (insertion_sort_calls (compareQs rnd targetDiff) [] remainingQs n) n)
     (fst (reorder rnd targetDiff remainingQs n))"
  using insertion_sort_justified [of "[]" "[]" rnd targetDiff remainingQs n]
  by (simp add: reorder_def Array_sort_def)

text \<open>
  C3. For every list of remaining questions and every target difficulty, the reordered list
  is a permutation of the list: the same questions with the same multiplicities.
\<close>

theorem reorder_permutation: "mset (fst (reorder rnd targetDiff remainingQs n)) = mset remainingQs"
  by (simp add: reorder_def Array_sort_def mset_insertion_sort)

theorem reorder_permutation_witness:
  "mset (fst (reorder (constant_draws 0) ''hard'' sample_batch 0)) = mset sample_batch"
  using reorder_permutation [of "constant_draws 0" "''hard''" sample_batch 0] by simp

lemma length_reorder: "length (fst (reorder rnd targetDiff remainingQs n)) = length remainingQs"
  using mset_insertion_sort [of "compareQs rnd targetDiff" "[]" remainingQs n]
  by (metis reorder_def Array_sort_def add.left_neutral mset.simps(1) size_mset)

subsection \<open>The same with a merge sort\<close>

text \<open>
  With the merge sort in the place of the insertion sort, the sorted list is again a
  permutation of the list, and again no question of another difficulty stands before a
  question of the target difficulty.
\<close>

lemma mset_merge_lists:
  "mset (fst (merge_lists comparefn xs ys n)) = mset xs + mset ys"
proof (induction comparefn xs ys n rule: merge_lists.induct)
  case (1 comparefn ys n)
  show ?case by simp
next
  case (2 comparefn x xs n)
  show ?case by simp
next
  case (3 comparefn x xs y ys n)
  obtain order n' where c: "comparefn x y n = (order, n')"
    by (cases "comparefn x y n")
  show ?case
  proof (cases "0 < order")
    case True
    obtain zs n'' where r: "merge_lists comparefn (x # xs) ys n' = (zs, n'')"
      by (cases "merge_lists comparefn (x # xs) ys n'")
    have "mset zs = mset (x # xs) + mset ys"
      using "3.IH"(1) [OF c [symmetric] refl True] r by simp
    then show ?thesis
      using c True r by simp
  next
    case False
    obtain zs n'' where r: "merge_lists comparefn xs (y # ys) n' = (zs, n'')"
      by (cases "merge_lists comparefn xs (y # ys) n'")
    have "mset zs = mset xs + mset (y # ys)"
      using "3.IH"(2) [OF c [symmetric] refl False] r by simp
    then show ?thesis
      using c False r by simp
  qed
qed

lemma mset_merge_sort: "mset (fst (merge_sort comparefn xs n)) = mset xs"
proof (induction comparefn xs n rule: merge_sort.induct)
  case (1 comparefn xs n)
  show ?case
  proof (cases "length xs \<le> 1")
    case True
    then show ?thesis by simp
  next
    case False
    define half where "half = length xs div 2"
    define left where "left = merge_sort comparefn (take half xs) n"
    define right where "right = merge_sort comparefn (drop half xs) (snd left)"
    have l: "mset (fst left) = mset (take half xs)"
      unfolding left_def half_def using "1.IH"(1) [OF False refl] .
    have r: "mset (fst right) = mset (drop half xs)"
      unfolding right_def left_def half_def using "1.IH"(2) [OF False refl refl] .
    have "merge_sort comparefn xs n = merge_lists comparefn (fst left) (fst right) (snd right)"
      using False by (subst merge_sort.simps) (simp add: Let_def left_def right_def half_def)
    then have "mset (fst (merge_sort comparefn xs n)) = mset (take half xs) + mset (drop half xs)"
      by (simp add: mset_merge_lists l r)
    also have "\<dots> = mset (take half xs @ drop half xs)"
      by (simp only: mset_append)
    finally show ?thesis
      by (simp only: append_take_drop_id)
  qed
qed

lemma target_first_Cons:
  "target_first t (x # xs) =
     ((\<forall>z \<in> set xs. difficultyLevel z = t \<longrightarrow> difficultyLevel x = t) \<and> target_first t xs)"
  by (simp add: target_first_def)

lemma target_first_merge_lists:
  "target_first t xs \<Longrightarrow> target_first t ys \<Longrightarrow>
   target_first t (fst (merge_lists (compareQs rnd t) xs ys n))"
proof (induction "compareQs rnd t" xs ys n rule: merge_lists.induct)
  case (1 ys n)
  then show ?case by simp
next
  case (2 x xs n)
  then show ?case by simp
next
  case (3 x xs y ys n)
  obtain order n' where c: "compareQs rnd t x y n = (order, n')"
    by (cases "compareQs rnd t x y n")
  have tx: "target_first t xs" and ty: "target_first t ys"
    using "3.prems" by (simp_all only: target_first_Cons)
  have hx: "\<And>z. z \<in> set xs \<Longrightarrow> difficultyLevel z = t \<Longrightarrow> difficultyLevel x = t"
    using "3.prems"(1) by (simp only: target_first_Cons)
  have hy: "\<And>z. z \<in> set ys \<Longrightarrow> difficultyLevel z = t \<Longrightarrow> difficultyLevel y = t"
    using "3.prems"(2) by (simp only: target_first_Cons)
  show ?case
  proof (cases "0 < order")
    case True
    obtain zs n'' where r: "merge_lists (compareQs rnd t) (x # xs) ys n' = (zs, n'')"
      by (cases "merge_lists (compareQs rnd t) (x # xs) ys n'")
    have res: "merge_lists (compareQs rnd t) (x # xs) (y # ys) n = (y # zs, n'')"
      using c True r by simp
    have tz: "target_first t zs"
      using "3.hyps"(1) [OF c [symmetric] refl True "3.prems"(1) ty] r by simp
    have mem: "set zs = set (x # xs) \<union> set ys"
      using mset_merge_lists [of "compareQs rnd t" "x # xs" ys n'] r
      by (metis fst_conv set_mset_mset set_mset_union)
    have "0 < fst (compareQs rnd t x y n)"
      using True c by simp
    then have xy: "difficultyLevel x = t \<Longrightarrow> difficultyLevel y = t"
      using compareQs_positive [of rnd t x y n] by simp
    have "difficultyLevel y = t" if "z \<in> set zs" and d: "difficultyLevel z = t" for z
    proof -
      have "z = x \<or> z \<in> set xs \<or> z \<in> set ys"
        using that(1) mem by auto
      then show ?thesis
        using d xy hx hy by blast
    qed
    then have "target_first t (y # zs)"
      using tz by (simp only: target_first_Cons) blast
    then show ?thesis
      by (simp only: res fst_conv)
  next
    case False
    obtain zs n'' where r: "merge_lists (compareQs rnd t) xs (y # ys) n' = (zs, n'')"
      by (cases "merge_lists (compareQs rnd t) xs (y # ys) n'")
    have res: "merge_lists (compareQs rnd t) (x # xs) (y # ys) n = (x # zs, n'')"
      using c False r by simp
    have tz: "target_first t zs"
      using "3.hyps"(2) [OF c [symmetric] refl False tx "3.prems"(2)] r by simp
    have mem: "set zs = set xs \<union> set (y # ys)"
      using mset_merge_lists [of "compareQs rnd t" xs "y # ys" n'] r
      by (metis fst_conv set_mset_mset set_mset_union)
    have "\<not> 0 < fst (compareQs rnd t x y n)"
      using False c by simp
    then have yx: "difficultyLevel y = t \<Longrightarrow> difficultyLevel x = t"
      using compareQs_not_positive [of rnd t x y n] by simp
    have "difficultyLevel x = t" if "z \<in> set zs" and d: "difficultyLevel z = t" for z
    proof -
      have "z = y \<or> z \<in> set xs \<or> z \<in> set ys"
        using that(1) mem by auto
      then show ?thesis
        using d yx hx hy by blast
    qed
    then have "target_first t (x # zs)"
      using tz by (simp only: target_first_Cons) blast
    then show ?thesis
      by (simp only: res fst_conv)
  qed
qed

lemma target_first_merge_sort:
  "target_first t (fst (merge_sort (compareQs rnd t) qs n))"
proof (induction "compareQs rnd t" qs n rule: merge_sort.induct)
  case (1 xs n)
  show ?case
  proof (cases "length xs \<le> 1")
    case True
    then have "xs = [] \<or> (\<exists>x. xs = [x])"
      by (cases xs) auto
    then have "target_first t xs"
      by (auto simp: target_first_def)
    then show ?thesis
      using True by simp
  next
    case False
    define half where "half = length xs div 2"
    define left where "left = merge_sort (compareQs rnd t) (take half xs) n"
    define right where "right = merge_sort (compareQs rnd t) (drop half xs) (snd left)"
    have l: "target_first t (fst left)"
      unfolding left_def half_def using "1.hyps"(1) [OF False refl] .
    have r: "target_first t (fst right)"
      unfolding right_def left_def half_def using "1.hyps"(2) [OF False refl refl] .
    have "merge_sort (compareQs rnd t) xs n =
            merge_lists (compareQs rnd t) (fst left) (fst right) (snd right)"
      using False by (subst merge_sort.simps) (simp add: Let_def left_def right_def half_def)
    then show ?thesis
      using target_first_merge_lists [OF l r, of rnd "snd right"] by simp
  qed
qed

subsection \<open>The difficulty target\<close>

lemma fl_7_10: "fl (7 / 10) = 3152519739159347 / 4503599627370496"
  by code_simp

lemma fl_4_10: "fl (2 / 5) = 3602879701896397 / 9007199254740992"
  by code_simp

lemma fl_71_100: "fl (71 / 100) = 799388933858263 / 1125899906842624"
  by code_simp

lemma fl_41_100: "fl (41 / 100) = 7385903388887613 / 18014398509481984"
  by code_simp

text \<open>
  C4. For every performance ratio \<open>r\<close>, \<open>calculateDificultyLevel\<close> returns \<open>hard\<close> if
  \<open>r > 0.7\<close>, \<open>medium\<close> if \<open>r > 0.4\<close> and not \<open>r > 0.7\<close>, and \<open>easy\<close> otherwise (also for
  \<open>NaN\<close>). The comparisons are strict: the Number \<open>0.7\<close> gives \<open>medium\<close>, the Number \<open>0.4\<close>
  gives \<open>easy\<close>, and \<open>0\<close> gives \<open>easy\<close>.
\<close>

theorem calculateDificultyLevel_thresholds:
  "(js_gt r (literal (7 / 10)) \<longrightarrow> calculateDificultyLevel r = ''hard'') \<and>
   (js_gt r (literal (4 / 10)) \<and> \<not> js_gt r (literal (7 / 10)) \<longrightarrow>
      calculateDificultyLevel r = ''medium'') \<and>
   (\<not> js_gt r (literal (4 / 10)) \<longrightarrow> calculateDificultyLevel r = ''easy'') \<and>
   calculateDificultyLevel (literal (7 / 10)) = ''medium'' \<and>
   calculateDificultyLevel (literal (4 / 10)) = ''easy'' \<and>
   calculateDificultyLevel (Num 0) = ''easy''"
  by (cases r) (simp_all add: calculateDificultyLevel_def literal_def fl_7_10 fl_4_10)

theorem calculateDificultyLevel_thresholds_witness:
  "js_gt (literal (71 / 100)) (literal (7 / 10)) \<and>
   calculateDificultyLevel (literal (71 / 100)) = ''hard'' \<and>
   js_gt (literal (41 / 100)) (literal (4 / 10)) \<and>
   \<not> js_gt (literal (41 / 100)) (literal (7 / 10)) \<and>
   calculateDificultyLevel (literal (41 / 100)) = ''medium'' \<and>
   \<not> js_gt NaN (literal (4 / 10)) \<and>
   calculateDificultyLevel NaN = ''easy''"
proof -
  have h: "js_gt (literal (71 / 100)) (literal (7 / 10))"
    by (simp add: literal_def fl_7_10 fl_71_100)
  have m: "js_gt (literal (41 / 100)) (literal (4 / 10)) \<and>
           \<not> js_gt (literal (41 / 100)) (literal (7 / 10))"
    by (simp add: literal_def fl_7_10 fl_4_10 fl_41_100)
  have e: "\<not> js_gt NaN (literal (4 / 10))"
    by (simp add: literal_def)
  show ?thesis
    using h m e
      calculateDificultyLevel_thresholds [of "literal (71 / 100)"]
      calculateDificultyLevel_thresholds [of "literal (41 / 100)"]
      calculateDificultyLevel_thresholds [of NaN]
    by blast
qed

subsection \<open>Answers outside a running quiz\<close>

text \<open>
  C7. In every state with \<open>quizRunning = false\<close>, \<open>selectAnswer\<close> returns normally and
  leaves the whole state as it is: the score, the position, the generator, the history
  and the page.
\<close>

theorem selectAnswer_not_running: "\<not> quizRunning s \<Longrightarrow> selectAnswer rnd chosenAnswer s = Inr s"
  by (simp add: selectAnswer_def)


theorem selectAnswer_not_running_witness:
  "\<not> quizRunning (newQuiz newPlayer) \<and>
   selectAnswer (constant_draws 0) ''a'' (newQuiz newPlayer) = Inr (newQuiz newPlayer)"
proof -
  have h: "\<not> quizRunning (newQuiz newPlayer)"
    by (simp add: newQuiz_def)
  show ?thesis
    using h selectAnswer_not_running [OF h, of "constant_draws 0" "''a''"] by simp
qed

subsection \<open>The percentage of an attempt\<close>

lemma percentage_7_10: "Math_round (js_times (js_divide 7 10) 100) = Num 70"
  by code_simp

lemma percentage_1_3: "Math_round (js_times (js_divide 1 3) 100) = Num 33"
  by code_simp

lemma percentage_2_3: "Math_round (js_times (js_divide 2 3) 100) = Num 67"
  by code_simp

lemma percentage_23_40: "Math_round (js_times (js_divide 23 40) 100) = Num 57"
  by code_simp

lemma percentage_29_200: "Math_round (js_times (js_divide 29 200) 100) = Num 14"
  by code_simp

lemma percentage_exact_upto_6:
  "\<forall>t \<in> set [1..<7]. \<forall>s \<in> set [0..<Suc t].
     Math_round (js_times (js_divide s t) 100) =
       Num (of_int (round ((of_nat s / of_nat t * 100)::rat)))"
  by code_simp

lemma percentage_exact_7_8:
  "\<forall>t \<in> set [7..<9]. \<forall>s \<in> set [0..<Suc t].
     Math_round (js_times (js_divide s t) 100) =
       Num (of_int (round ((of_nat s / of_nat t * 100)::rat)))"
  by code_simp

lemma percentage_exact_9_10:
  "\<forall>t \<in> set [9..<11]. \<forall>s \<in> set [0..<Suc t].
     Math_round (js_times (js_divide s t) 100) =
       Num (of_int (round ((of_nat s / of_nat t * 100)::rat)))"
  by code_simp

lemma percentage_exact_upto_10:
  assumes "0 < t" and "t \<le> 10" and "s \<le> t"
  shows "Math_round (js_times (js_divide s t) 100) =
           Num (of_int (round ((of_nat s / of_nat t * 100)::rat)))"
proof -
  have s: "s \<in> set [0..<Suc t]"
    using assms(3) by (simp only: set_upt atLeastLessThan_iff) arith
  have "t \<in> set [1..<7] \<or> t \<in> set [7..<9] \<or> t \<in> set [9..<11]"
    using assms(1) assms(2) by (simp only: set_upt atLeastLessThan_iff) arith
  then show ?thesis
    using s percentage_exact_upto_6 percentage_exact_7_8 percentage_exact_9_10 by blast
qed

text \<open>
  Against C9 as stated: for 23 of 40 the exact percentage is 57.5, which rounds to 58,
  and the entry that \<open>recordQuizAttempt\<close> appends has the percentage 57. The quotient
  \<open>23 / 40\<close> is not a Number; the nearest Number lies below it, and so does its product
  with 100.
\<close>

theorem recordQuizAttempt_percentage_counterexample:
  "attempt_percentage (last (allScores (recordQuizAttempt 23 40 newPlayer))) = Num 57 \<and>
   round ((23 / 40 * 100)::rat) = 58"
proof -
  have "round ((23 / 40 * 100)::rat) = 58"
    by code_simp
  then show ?thesis
    by (simp add: recordQuizAttempt_def percentage_23_40)
qed

text \<open>
  C9 (amended). For every score \<open>s\<close> and every total \<open>t > 0\<close>, \<open>recordQuizAttempt\<close> appends
  one entry with the score, the total, and the percentage \<open>Math.round((s / t) * 100)\<close> as
  the script computes it on Numbers: the quotient rounded to a Number, its product with
  100 rounded to a Number, and of that the nearest integer. For every total up to 10 and
  every score up to the total this is the exact percentage rounded to the nearest
  integer. For 7 of 10 the percentage is 70, for 1 of 3 it is 33, and for 2 of 3 it is 67.
\<close>

theorem recordQuizAttempt_percentage:
  "(0 < t \<longrightarrow>
      allScores (recordQuizAttempt s t p) = allScores p @
        [\<lparr>attempt_score = s, attempt_total = t,
          attempt_percentage = Num (of_int \<lfloor>fl (fl (of_nat s / of_nat t) * 100) + 1 / 2\<rfloor>)\<rparr>]) \<and>
   (0 < t \<and> t \<le> 10 \<and> s \<le> t \<longrightarrow>
      attempt_percentage (last (allScores (recordQuizAttempt s t p))) =
        Num (of_int (round ((of_nat s / of_nat t * 100)::rat)))) \<and>
   attempt_percentage (last (allScores (recordQuizAttempt 7 10 p))) = Num 70 \<and>
   attempt_percentage (last (allScores (recordQuizAttempt 1 3 p))) = Num 33 \<and>
   attempt_percentage (last (allScores (recordQuizAttempt 2 3 p))) = Num 67"
proof -
  have "0 < t \<longrightarrow>
      allScores (recordQuizAttempt s t p) = allScores p @
        [\<lparr>attempt_score = s, attempt_total = t,
          attempt_percentage = Num (of_int \<lfloor>fl (fl (of_nat s / of_nat t) * 100) + 1 / 2\<rfloor>)\<rparr>]"
    by (simp add: recordQuizAttempt_def js_divide_def)
  moreover have "0 < t \<and> t \<le> 10 \<and> s \<le> t \<longrightarrow>
      attempt_percentage (last (allScores (recordQuizAttempt s t p))) =
        Num (of_int (round ((of_nat s / of_nat t * 100)::rat)))"
    using percentage_exact_upto_10 [of t s] by (simp add: recordQuizAttempt_def)
  moreover have "attempt_percentage (last (allScores (recordQuizAttempt 7 10 p))) = Num 70"
    by (simp add: recordQuizAttempt_def percentage_7_10)
  moreover have "attempt_percentage (last (allScores (recordQuizAttempt 1 3 p))) = Num 33"
    using percentage_1_3 by (simp add: recordQuizAttempt_def)
  moreover have "attempt_percentage (last (allScores (recordQuizAttempt 2 3 p))) = Num 67"
    by (simp add: recordQuizAttempt_def percentage_2_3)
  ultimately show ?thesis
    by blast
qed

theorem recordQuizAttempt_percentage_witness:
  "(0::nat) < 200 \<and>
   allScores (recordQuizAttempt 29 200 newPlayer) =
     [\<lparr>attempt_score = 29, attempt_total = 200, attempt_percentage = Num 14\<rparr>] \<and>
   (0::nat) < 10 \<and> (10::nat) \<le> 10 \<and> (9::nat) \<le> 10 \<and>
   attempt_percentage (last (allScores (recordQuizAttempt 9 10 newPlayer))) = Num 90"
proof -
  have h: "(0::nat) < 200" by simp
  have g: "(0::nat) < 10 \<and> (10::nat) \<le> 10 \<and> (9::nat) \<le> 10" by simp
  have r: "round ((9 / 10 * 100)::rat) = 90"
    by code_simp
  have a: "allScores (recordQuizAttempt 29 200 newPlayer) =
     [\<lparr>attempt_score = 29, attempt_total = 200,
       attempt_percentage = Num (of_int \<lfloor>fl (fl (of_nat 29 / of_nat 200) * 100) + 1 / 2\<rfloor>)\<rparr>]"
    using h recordQuizAttempt_percentage [of 200 29 newPlayer] by (simp add: newPlayer_def)
  have "Num (of_int \<lfloor>fl (fl (of_nat 29 / of_nat 200) * 100) + 1 / 2\<rfloor>) = Num 14"
    using percentage_29_200 by (simp add: js_divide_def)
  then have a': "allScores (recordQuizAttempt 29 200 newPlayer) =
     [\<lparr>attempt_score = 29, attempt_total = 200, attempt_percentage = Num 14\<rparr>]"
    using a by simp
  have "attempt_percentage (last (allScores (recordQuizAttempt 9 10 newPlayer))) =
          Num (of_int (round ((of_nat 9 / of_nat 10 * 100)::rat)))"
    using g recordQuizAttempt_percentage [of 10 9 newPlayer] by blast
  then have "attempt_percentage (last (allScores (recordQuizAttempt 9 10 newPlayer))) = Num 90"
    using r by simp
  then show ?thesis
    using h g a' by blast
qed

subsection \<open>The generator changes only the remaining questions\<close>

lemma gen_while_quiz: "snd (snd (gen_while g s)) = s"
  by (simp add: gen_while_def)

lemma gen_while_qIndex: "qIndex (fst (snd (gen_while g s))) = qIndex g"
  by (simp add: gen_while_def)

lemma length_reorder_result:
  "reorder rnd targetDiff remainingQs n = (sortedQs, n') \<Longrightarrow> length sortedQs = length remainingQs"
  using length_reorder [of rnd targetDiff remainingQs n] by simp

lemma length_adjust_difficulty:
  "length (allQuestions (adjust_difficulty rnd cc qi s)) = length (allQuestions s)"
  by (auto simp: adjust_difficulty_def Let_def dest: length_reorder_result split: prod.splits)

lemma take_adjust_difficulty:
  "take qi (allQuestions (adjust_difficulty rnd cc qi s)) = take qi (allQuestions s)"
  by (simp add: adjust_difficulty_def Let_def split: prod.splits)

text \<open>
  C8. Every call of \<open>next\<close> on the generator, from any state of the generator and of the
  quiz, leaves the length of \<open>allQuestions\<close> unchanged and leaves the questions at the
  indices below the new \<open>qIndex\<close> (those already answered) as they were.
\<close>

theorem gen_next_preserves_head:
  assumes "gen_next rnd playerAnswer g s = (genDone, g', s')" and "p \<le> qIndex g'"
  shows "take p (allQuestions s') = take p (allQuestions s) \<and>
         length (allQuestions s') = length (allQuestions s)"
proof (cases "status g")
  case SuspendedStart
  then have "s' = s"
    using assms(1) gen_while_quiz [of "g\<lparr>qIndex := 0, correctCount := 0\<rparr>" s]
    by (simp add: gen_next_def)
  then show ?thesis by simp
next
  case Completed
  then have "s' = s"
    using assms(1) by (simp add: gen_next_def)
  then show ?thesis by simp
next
  case (SuspendedYield q)
  define cc where "cc = (if validateAnswer q playerAnswer then correctCount g + 1 else correctCount g)"
  define qi where "qi = qIndex g + 1"
  have step: "gen_while (g\<lparr>qIndex := qi, correctCount := cc\<rparr>) (adjust_difficulty rnd cc qi s)
                = (genDone, g', s')"
    using assms(1) SuspendedYield by (simp add: gen_next_def cc_def qi_def Let_def)
  have s': "s' = adjust_difficulty rnd cc qi s"
    using gen_while_quiz [of "g\<lparr>qIndex := qi, correctCount := cc\<rparr>" "adjust_difficulty rnd cc qi s"] step
    by simp
  have "qIndex g' = qi"
    using gen_while_qIndex [of "g\<lparr>qIndex := qi, correctCount := cc\<rparr>" "adjust_difficulty rnd cc qi s"] step
    by simp
  then have "p \<le> qi"
    using assms(2) by simp
  then have "take p (allQuestions s') = take p (take qi (allQuestions s'))"
    by (simp add: min_def)
  also have "\<dots> = take p (take qi (allQuestions s))"
    by (simp only: s' take_adjust_difficulty)
  also have "\<dots> = take p (allQuestions s)"
    using \<open>p \<le> qi\<close> by (simp add: min_def)
  finally show ?thesis
    by (simp add: s' length_adjust_difficulty)
qed

theorem gen_next_preserves_head_witness:
  "gen_next (constant_draws 0) (Some ''a'')
     \<lparr>status = SuspendedYield (sample_question ''a'' ''easy''), qIndex = 0, correctCount = 0\<rparr>
     sample_started =
     (False,
      \<lparr>status = SuspendedYield (sample_question ''b'' ''hard''), qIndex = 1, correctCount = 1\<rparr>,
      sample_started\<lparr>allQuestions :=
        [sample_question ''a'' ''easy'', sample_question ''b'' ''hard'', sample_question ''c'' ''medium'']\<rparr>) \<and>
   take 1 [sample_question ''a'' ''easy'', sample_question ''b'' ''hard'', sample_question ''c'' ''medium''] =
     take 1 sample_batch \<and>
   length [sample_question ''a'' ''easy'', sample_question ''b'' ''hard'', sample_question ''c'' ''medium''] =
     length sample_batch"
proof -
  have h: "gen_next (constant_draws 0) (Some ''a'')
     \<lparr>status = SuspendedYield (sample_question ''a'' ''easy''), qIndex = 0, correctCount = 0\<rparr>
     sample_started =
     (False,
      \<lparr>status = SuspendedYield (sample_question ''b'' ''hard''), qIndex = 1, correctCount = 1\<rparr>,
      sample_started\<lparr>allQuestions :=
        [sample_question ''a'' ''easy'', sample_question ''b'' ''hard'', sample_question ''c'' ''medium'']\<rparr>)"
    by code_simp
  show ?thesis
    using h gen_next_preserves_head [OF h, of 1] by (simp add: sample_started_def)
qed

subsection \<open>Starting with no questions\<close>

text \<open>
  Against C6 as stated: starting a new quiz with an empty list of questions does not
  fail. The call returns normally: the quiz is running at position 0 with score 0, the
  generator has finished, and nothing was displayed.
\<close>

theorem startQuiz_empty_counterexample:
  "startQuiz (constant_draws 0) [] (newQuiz newPlayer) =
     Inr ((newQuiz newPlayer)\<lparr>quizRunning := True,
            qGen := Some \<lparr>status = Completed, qIndex = 0, correctCount = 0\<rparr>\<rparr>)"
  by (simp add: startQuiz_def initializeQuiz_def gen_next_def gen_while_def quizFlowGenerator_def
      newQuiz_def newPlayer_def clearCurrentScore_def)

lemma startQuiz_Nil:
  "startQuiz rnd [] s =
     Inr (s\<lparr>allQuestions := [], quizRunning := True, currentQIndex := 0, totalScore := 0,
            playerObj := clearCurrentScore (playerObj s),
            qGen := Some \<lparr>status = Completed, qIndex = 0, correctCount = 0\<rparr>\<rparr>)"
  by (simp add: startQuiz_def initializeQuiz_def gen_next_def gen_while_def quizFlowGenerator_def)

text \<open>
  C6 (amended). From every state, starting with an empty list of questions reports no
  error: the call returns normally with \<open>quizRunning = true\<close>, position 0, score 0 and the
  generator finished; no question is displayed, nothing is written to the page, and the
  history is unchanged.
\<close>

theorem startQuiz_no_questions:
  "\<exists>s'. startQuiz rnd [] s = Inr s' \<and> quizRunning s' \<and> currentQIndex s' = 0 \<and>
      totalScore s' = 0 \<and> qGen s' = Some \<lparr>status = Completed, qIndex = 0, correctCount = 0\<rparr> \<and>
      screen s' = screen s \<and> allScores (playerObj s') = allScores (playerObj s) \<and>
      pendingTimers s' = pendingTimers s"
  by (simp add: startQuiz_Nil clearCurrentScore_def)

theorem startQuiz_no_questions_witness:
  "\<exists>s'. startQuiz (constant_draws 0) [] sample_started = Inr s' \<and> quizRunning s' \<and>
      currentQIndex s' = 0 \<and> totalScore s' = 0 \<and>
      qGen s' = Some \<lparr>status = Completed, qIndex = 0, correctCount = 0\<rparr> \<and>
      screen s' = screen sample_started \<and>
      allScores (playerObj s') = allScores (playerObj sample_started) \<and>
      pendingTimers s' = pendingTimers sample_started"
  using startQuiz_no_questions [of "constant_draws 0" sample_started] .

subsection \<open>One answer and the way on\<close>

lemma completions_append: "completions (es @ fs) = completions es @ completions fs"
  by (induction es rule: completions.induct) simp_all

lemma right_answers_append: "right_answers (es @ fs) = right_answers es + right_answers fs"
  by (induction es rule: right_answers.induct) simp_all

lemma adjust_difficulty_fields:
  "quizRunning (adjust_difficulty rnd cc qi s) = quizRunning s"
  "currentQIndex (adjust_difficulty rnd cc qi s) = currentQIndex s"
  "totalScore (adjust_difficulty rnd cc qi s) = totalScore s"
  "qGen (adjust_difficulty rnd cc qi s) = qGen s"
  "nextBtnShown (adjust_difficulty rnd cc qi s) = nextBtnShown s"
  "pendingTimers (adjust_difficulty rnd cc qi s) = pendingTimers s"
  "screen (adjust_difficulty rnd cc qi s) = screen s"
  "playerObj (adjust_difficulty rnd cc qi s) = playerObj s"
  by (simp_all add: adjust_difficulty_def Let_def split: prod.splits)

lemma selectAnswer_awaiting:
  assumes "awaiting_answer k s"
  shows "\<exists>s1. selectAnswer rnd a s = Inr s1 \<and>
              after_answer k (validateAnswer (allQuestions s ! k) (Some a)) s s1"
proof -
  define b where "b = validateAnswer (allQuestions s ! k) (Some a)"
  define sc where "sc = (if b then totalScore s + 1 else totalScore s)"
  define s1 where "s1 = (if b
      then s\<lparr>totalScore := totalScore s + 1,
             playerObj := (playerObj s)\<lparr>recentScore := recentScore (playerObj s) + 1\<rparr>\<rparr>
      else s)"
  define s2 where "s2 = s1\<lparr>screen := screen s1 @ [ShowFeedback b (correctAns (allQuestions s ! k))]\<rparr>"
  define s3 where "s3 = adjust_difficulty rnd sc (Suc k) s2"
  define g' where "g' = \<lparr>status = (if Suc k < length (allQuestions s)
                                   then SuspendedYield (allQuestions s3 ! Suc k) else Completed),
                       qIndex = Suc k, correctCount = sc\<rparr>"
  define r where "r = (if Suc k < length (allQuestions s)
      then s3\<lparr>qGen := Some g', nextBtnShown := True\<rparr>
      else s3\<lparr>qGen := Some g', pendingTimers := pendingTimers s3 + 1\<rparr>)"
  have run: "quizRunning s" and cur: "currentQIndex s = k" and k: "k < length (allQuestions s)"
    and gen: "qGen s = Some \<lparr>status = SuspendedYield (allQuestions s ! k), qIndex = k,
                               correctCount = totalScore s\<rparr>"
    and tm: "pendingTimers s = 0" and nb: "\<not> nextBtnShown s"
    using assms by (simp_all add: awaiting_answer_def)
  have s2: "allQuestions s2 = allQuestions s" "qGen s2 = qGen s" "totalScore s2 = sc"
    "quizRunning s2" "currentQIndex s2 = k" "pendingTimers s2 = 0" "\<not> nextBtnShown s2"
    "screen s2 = screen s @ [ShowFeedback b (correctAns (allQuestions s ! k))]"
    "allScores (playerObj s2) = allScores (playerObj s)"
    using run cur tm nb by (simp_all add: s2_def s1_def sc_def)
  have len3: "length (allQuestions s3) = length (allQuestions s)"
    by (simp add: s3_def length_adjust_difficulty s2)
  have gn: "gen_next rnd (Some a) \<lparr>status = SuspendedYield (allQuestions s ! k), qIndex = k,
                               correctCount = totalScore s\<rparr> s2
              = (\<not> Suc k < length (allQuestions s), g', s3)"
    by (simp add: gen_next_def gen_while_def g'_def s3_def sc_def b_def Let_def
        length_adjust_difficulty s2)
  have "selectAnswer rnd a s =
          (case qGen s2 of
             None \<Rightarrow> Inl TypeError
           | Some g \<Rightarrow>
               (let (genDone, g', s3) = gen_next rnd (Some a) g s2;
                    s4 = s3\<lparr>qGen := Some g'\<rparr>
                in Inr (if \<not> genDone then s4\<lparr>nextBtnShown := True\<rparr>
                        else s4\<lparr>pendingTimers := pendingTimers s4 + 1\<rparr>)))"
    unfolding selectAnswer_def s2_def s1_def b_def Let_def cur [symmetric]
    using run k [unfolded cur [symmetric]] by simp
  also have "\<dots> = Inr r"
    using gen gn by (simp add: s2(2) r_def)
  finally have "selectAnswer rnd a s = Inr r" .
  moreover have "after_answer k b s r"
    using len3 s2
    by (simp add: after_answer_def r_def g'_def s3_def adjust_difficulty_fields sc_def)
  ultimately show ?thesis
    unfolding b_def by blast
qed

lemma advance_to_next:
  assumes "after_answer k b s s1" and "Suc k < length (allQuestions s)"
  shows "awaiting_answer (Suc k) (advance s1) \<and>
         allQuestions (advance s1) = allQuestions s1 \<and>
         totalScore (advance s1) = totalScore s1 \<and>
         playerObj (advance s1) = playerObj s1 \<and>
         screen (advance s1) =
           screen s1 @ [ShowQuestion (Suc k) (allQuestions s1 ! Suc k) (totalScore s1)]"
  using assms
  by (simp add: after_answer_def advance_def moveToNextQ_def displayCurrentQuestion_def
      awaiting_answer_def Let_def)

lemma advance_to_end:
  assumes "after_answer k b s s1" and "\<not> Suc k < length (allQuestions s)"
  shows "finished (advance s1) \<and> counts_agree (advance s1) \<and>
         allQuestions (advance s1) = allQuestions s1 \<and>
         totalScore (advance s1) = totalScore s1 \<and>
         playerObj (advance s1) =
           recordQuizAttempt (totalScore s1) (length (allQuestions s1)) (playerObj s1) \<and>
         (\<exists>pct. screen (advance s1) =
           screen s1 @ [ShowFinal (totalScore s1) (length (allQuestions s1)) pct])"
  using assms
  by (simp add: after_answer_def advance_def timerFires_def finishQuiz_def finished_def
      counts_agree_def Let_def)


text \<open>
  After the last answer the button \<open>next-btn\<close> stays hidden. Were \<open>moveToNextQ\<close> called
  all the same, it would finish the quiz, and the timer would finish it a second time:
  two final results would be written.
\<close>

lemma moveToNextQ_after_last_answer:
  assumes "after_answer k b s s1" and "\<not> Suc k < length (allQuestions s)"
  shows "completions (screen (timerFires (moveToNextQ s1))) =
           completions (screen s) @
             [(totalScore s1, length (allQuestions s)), (totalScore s1, length (allQuestions s))]"
  using assms
  by (simp add: after_answer_def moveToNextQ_def displayCurrentQuestion_def timerFires_def
      finishQuiz_def Let_def completions_append)

subsection \<open>A whole quiz\<close>

lemma startQuiz_nonempty:
  assumes "B \<noteq> []" and "pendingTimers s0 = 0"
  shows "\<exists>s. startQuiz rnd B s0 = Inr s \<and> awaiting_answer 0 s \<and> allQuestions s = B \<and>
             totalScore s = 0 \<and> allScores (playerObj s) = allScores (playerObj s0) \<and>
             screen s = screen s0 @ [ShowQuestion 0 (B ! 0) 0]"
  using assms
  by (simp add: startQuiz_def initializeQuiz_def gen_next_def gen_while_def
      quizFlowGenerator_def displayCurrentQuestion_def awaiting_answer_def
      clearCurrentScore_def Let_def)

lemma advance_finished: "finished s \<Longrightarrow> advance s = s"
  by (simp add: finished_def advance_def timerFires_def)

lemma play_finished: "finished s \<Longrightarrow> play rnd as s = Inr s"
proof (induction as)
  case Nil
  show ?case by simp
next
  case (Cons a as)
  have "selectAnswer rnd a s = Inr s"
    using Cons.prems by (simp add: finished_def selectAnswer_def)
  then show ?case
    using Cons by (simp add: advance_finished)
qed

lemma answered_finished: "finished s \<Longrightarrow> answered rnd as s = replicate (length as) s"
proof (induction as)
  case Nil
  show ?case by simp
next
  case (Cons a as)
  have "selectAnswer rnd a s = Inr s"
    using Cons.prems by (simp add: finished_def selectAnswer_def)
  then show ?case
    using Cons by (simp add: advance_finished)
qed

lemma after_answer_counts_agree: "after_answer k b s s1 \<Longrightarrow> counts_agree s1"
  by (simp add: after_answer_def counts_agree_def)

lemma play_from_awaiting:
  assumes "awaiting_answer k s" and "length (allQuestions s) - k \<le> length as"
  shows "\<exists>s'. play rnd as s = Inr s' \<and> completed_from s s'"
  using assms
proof (induction as arbitrary: k s)
  case Nil
  then show ?case by (simp add: awaiting_answer_def)
next
  case (Cons a as)
  define b where "b = validateAnswer (allQuestions s ! k) (Some a)"
  obtain s1 where sel: "selectAnswer rnd a s = Inr s1" and aa: "after_answer k b s s1"
    using selectAnswer_awaiting [OF Cons.prems(1), of rnd a] unfolding b_def by blast
  have s1: "totalScore s1 = (if b then totalScore s + 1 else totalScore s)"
    "length (allQuestions s1) = length (allQuestions s)"
    "screen s1 = screen s @ [ShowFeedback b (correctAns (allQuestions s ! k))]"
    "allScores (playerObj s1) = allScores (playerObj s)"
    using aa by (simp_all add: after_answer_def)
  show ?case
  proof (cases "Suc k < length (allQuestions s)")
    case True
    have nx: "awaiting_answer (Suc k) (advance s1)"
      "allQuestions (advance s1) = allQuestions s1"
      "totalScore (advance s1) = totalScore s1"
      "playerObj (advance s1) = playerObj s1"
      "screen (advance s1) =
         screen s1 @ [ShowQuestion (Suc k) (allQuestions s1 ! Suc k) (totalScore s1)]"
      using advance_to_next [OF aa True] by simp_all
    have "length (allQuestions (advance s1)) - Suc k \<le> length as"
      using Cons.prems(2) nx(2) s1(2) by simp
    then obtain s' where pl: "play rnd as (advance s1) = Inr s'"
      and cf: "completed_from (advance s1) s'"
      using Cons.IH [OF nx(1)] by blast
    have "completed_from s s'"
      using cf nx s1
      by (cases b) (simp_all add: completed_from_def completions_append right_answers_append)
    then show ?thesis
      using sel pl by simp
  next
    case False
    have en: "finished (advance s1)" "counts_agree (advance s1)"
      "allQuestions (advance s1) = allQuestions s1"
      "totalScore (advance s1) = totalScore s1"
      "playerObj (advance s1) =
         recordQuizAttempt (totalScore s1) (length (allQuestions s1)) (playerObj s1)"
      using advance_to_end [OF aa False] by simp_all
    obtain pct where sc: "screen (advance s1) =
        screen s1 @ [ShowFinal (totalScore s1) (length (allQuestions s1)) pct]"
      using advance_to_end [OF aa False] by blast
    have "completed_from s (advance s1)"
      using en sc s1
      by (cases b) (simp_all add: completed_from_def completions_append right_answers_append
          recordQuizAttempt_def)
    moreover have "play rnd (a # as) s = Inr (advance s1)"
      using sel play_finished [OF en(1)] by simp
    ultimately show ?thesis
      by blast
  qed
qed

lemma answered_from_awaiting:
  assumes "awaiting_answer k s"
  shows "(\<forall>s' \<in> set (answered rnd as s). counts_agree s') \<and>
         length (answered rnd as s) = length as"
  using assms
proof (induction as arbitrary: k s)
  case Nil
  show ?case by simp
next
  case (Cons a as)
  obtain s1 where sel: "selectAnswer rnd a s = Inr s1"
    and aa: "after_answer k (validateAnswer (allQuestions s ! k) (Some a)) s s1"
    using selectAnswer_awaiting [OF Cons.prems, of rnd a] by blast
  have ag: "counts_agree s1"
    using after_answer_counts_agree [OF aa] .
  have rest: "(\<forall>s' \<in> set (answered rnd as (advance s1)). counts_agree s') \<and>
              length (answered rnd as (advance s1)) = length as"
  proof (cases "Suc k < length (allQuestions s)")
    case True
    then show ?thesis
      using Cons.IH [of "Suc k" "advance s1"] advance_to_next [OF aa True] by blast
  next
    case False
    then show ?thesis
      using advance_to_end [OF aa False] answered_finished [of "advance s1" rnd as] by simp
  qed
  show ?case
    using sel ag rest by simp
qed

text \<open>
  C1. From every state with no timer pending, starting a quiz on a non-empty batch \<open>B\<close>
  and then submitting one answer per question, going on after each answer as the page
  offers (the next button, and after the last answer the timer), returns normally and
  ends with \<open>quizRunning = false\<close> and no timer pending; exactly one final result was
  written and one attempt recorded, both with the total \<open>length B\<close>.
\<close>

theorem quiz_completes_once:
  assumes "B \<noteq> []" and "length as = length B" and "pendingTimers s0 = 0"
  shows "\<exists>s s'. startQuiz rnd B s0 = Inr s \<and> play rnd as s = Inr s' \<and>
           \<not> quizRunning s' \<and> pendingTimers s' = 0 \<and>
           completions (screen s') = completions (screen s0) @ [(totalScore s', length B)] \<and>
           map attempt_total (allScores (playerObj s')) =
             map attempt_total (allScores (playerObj s0)) @ [length B]"
proof -
  obtain s where st: "startQuiz rnd B s0 = Inr s" and aw: "awaiting_answer 0 s"
    and s: "allQuestions s = B" "allScores (playerObj s) = allScores (playerObj s0)"
      "screen s = screen s0 @ [ShowQuestion 0 (B ! 0) 0]"
    using startQuiz_nonempty [OF assms(1) assms(3), of rnd] by blast
  have "length (allQuestions s) - 0 \<le> length as"
    using assms(2) s(1) by simp
  then obtain s' where pl: "play rnd as s = Inr s'" and cf: "completed_from s s'"
    using play_from_awaiting [OF aw, of as rnd] by blast
  have "\<not> quizRunning s' \<and> pendingTimers s' = 0 \<and>
        completions (screen s') = completions (screen s0) @ [(totalScore s', length B)] \<and>
        map attempt_total (allScores (playerObj s')) =
          map attempt_total (allScores (playerObj s0)) @ [length B]"
    using cf s by (simp add: completed_from_def finished_def completions_append)
  then show ?thesis
    using st pl by blast
qed

theorem quiz_completes_once_witness:
  "sample_batch \<noteq> [] \<and> length [''a'', ''b'', ''zzz''] = length sample_batch \<and>
   pendingTimers (newQuiz newPlayer) = 0 \<and>
   (\<exists>s'. play (constant_draws 0) [''a'', ''b'', ''zzz''] sample_started = Inr s' \<and>
      \<not> quizRunning s' \<and> pendingTimers s' = 0 \<and>
      completions (screen s') =
        completions (screen (newQuiz newPlayer)) @ [(totalScore s', length sample_batch)] \<and>
      map attempt_total (allScores (playerObj s')) =
        map attempt_total (allScores (playerObj (newQuiz newPlayer))) @ [length sample_batch])"
proof -
  have h1: "sample_batch \<noteq> []"
    by (simp add: sample_batch_def)
  have h2: "length [''a'', ''b'', ''zzz''] = length sample_batch"
    by (simp add: sample_batch_def)
  have h3: "pendingTimers (newQuiz newPlayer) = 0"
    by (simp add: newQuiz_def)
  have st: "startQuiz (constant_draws 0) sample_batch (newQuiz newPlayer) = Inr sample_started"
    by (simp add: startQuiz_def initializeQuiz_def gen_next_def gen_while_def
        quizFlowGenerator_def displayCurrentQuestion_def clearCurrentScore_def
        newQuiz_def newPlayer_def sample_started_def sample_batch_def)
  obtain s s' where s: "startQuiz (constant_draws 0) sample_batch (newQuiz newPlayer) = Inr s"
    and r: "play (constant_draws 0) [''a'', ''b'', ''zzz''] s = Inr s' \<and>
      \<not> quizRunning s' \<and> pendingTimers s' = 0 \<and>
      completions (screen s') =
        completions (screen (newQuiz newPlayer)) @ [(totalScore s', length sample_batch)] \<and>
      map attempt_total (allScores (playerObj s')) =
        map attempt_total (allScores (playerObj (newQuiz newPlayer))) @ [length sample_batch]"
    using quiz_completes_once [OF h1 h2 h3, of "constant_draws 0"] by blast
  have "s = sample_started"
    using s st by simp
  then show ?thesis
    using h1 h2 h3 r by blast
qed

lemma displayed_append: "displayed (es @ fs) = displayed es @ displayed fs"
  by (induction es rule: displayed.induct) simp_all

lemma asked_from_awaiting:
  assumes "awaiting_answer k s" and "length (allQuestions s) - k \<le> length as"
    and "play rnd as s = Inr s'"
  shows "\<exists>qs. displayed (screen s') = displayed (screen s) @ qs \<and>
              length qs = length (allQuestions s) - Suc k \<and>
              totalScore s' = totalScore s + matching (allQuestions s ! k # qs) as"
  using assms
proof (induction as arbitrary: k s)
  case Nil
  then show ?case by (simp add: awaiting_answer_def)
next
  case (Cons a as)
  define q where "q = allQuestions s ! k"
  define b where "b = validateAnswer q (Some a)"
  have b: "b = (a = correctAns q)"
    by (auto simp: b_def validateAnswer_def)
  obtain s1 where sel: "selectAnswer rnd a s = Inr s1" and aa: "after_answer k b s s1"
    using selectAnswer_awaiting [OF Cons.prems(1), of rnd a] unfolding b_def q_def by blast
  have s1: "totalScore s1 = (if b then totalScore s + 1 else totalScore s)"
    "length (allQuestions s1) = length (allQuestions s)"
    "screen s1 = screen s @ [ShowFeedback b (correctAns (allQuestions s ! k))]"
    using aa by (simp_all add: after_answer_def)
  have pl: "play rnd as (advance s1) = Inr s'"
    using Cons.prems(3) sel by simp
  show ?case
  proof (cases "Suc k < length (allQuestions s)")
    case True
    define q' where "q' = allQuestions s1 ! Suc k"
    have nx: "awaiting_answer (Suc k) (advance s1)"
      "allQuestions (advance s1) = allQuestions s1"
      "totalScore (advance s1) = totalScore s1"
      "screen (advance s1) = screen s1 @ [ShowQuestion (Suc k) q' (totalScore s1)]"
      using advance_to_next [OF aa True] by (simp_all add: q'_def)
    have "length (allQuestions (advance s1)) - Suc k \<le> length as"
      using Cons.prems(2) nx(2) s1(2) by simp
    then obtain qs' where d: "displayed (screen s') = displayed (screen (advance s1)) @ qs'"
      and l: "length qs' = length (allQuestions (advance s1)) - Suc (Suc k)"
      and t: "totalScore s' =
                totalScore (advance s1) + matching (allQuestions (advance s1) ! Suc k # qs') as"
      using Cons.IH [OF nx(1) _ pl] by blast
    have "displayed (screen s') = displayed (screen s) @ (q' # qs')"
      using d nx(4) s1(3) by (simp add: displayed_append)
    moreover have "length (q' # qs') = length (allQuestions s) - Suc k"
      using l nx(2) s1(2) True by simp
    moreover have "totalScore s' = totalScore s + matching (q # q' # qs') (a # as)"
      using t nx(2) nx(3) s1(1) b by (simp add: q'_def)
    ultimately show ?thesis
      unfolding q_def by blast
  next
    case False
    have en: "finished (advance s1)" "totalScore (advance s1) = totalScore s1"
      using advance_to_end [OF aa False] by simp_all
    obtain pct where sc: "screen (advance s1) =
        screen s1 @ [ShowFinal (totalScore s1) (length (allQuestions s1)) pct]"
      using advance_to_end [OF aa False] by blast
    have s': "s' = advance s1"
      using pl play_finished [OF en(1), of rnd as] by simp
    have "displayed (screen s') = displayed (screen s) @ []"
      using sc s1(3) by (simp add: s' displayed_append)
    moreover have "length ([]::question list) = length (allQuestions s) - Suc k"
      using False by simp
    moreover have "totalScore s' = totalScore s + matching (q # []) (a # as)"
      using en(2) s1(1) b by (simp add: s')
    ultimately show ?thesis
      unfolding q_def by blast
  qed
qed

text \<open>
  C5. From every state with no timer pending, for every non-empty batch and every list of
  answers that has at least one answer per question, the score written with the final
  result, which is also the score of the recorded attempt, equals the number of answers
  that are equal, as strings, to the correct choice of the question that was displayed
  when the answer was submitted: exactly one question is displayed per question of the
  batch, and the \<open>i\<close>-th answer counts when it equals the correct choice of the \<open>i\<close>-th
  question displayed. Answers after the last question do not count. The score is also
  the number of feedbacks written as right.
\<close>

theorem final_score_counts_right_answers:
  assumes "B \<noteq> []" and "length B \<le> length as" and "pendingTimers s0 = 0"
  shows "\<exists>s s' sc qs. startQuiz rnd B s0 = Inr s \<and> play rnd as s = Inr s' \<and>
           completions (screen s') = completions (screen s0) @ [(sc, length B)] \<and>
           attempt_score (last (allScores (playerObj s'))) = sc \<and>
           displayed (screen s') = displayed (screen s0) @ qs \<and>
           length qs = length B \<and>
           sc = matching qs as \<and>
           right_answers (screen s') = right_answers (screen s0) + sc"
proof -
  obtain s where st: "startQuiz rnd B s0 = Inr s" and aw: "awaiting_answer 0 s"
    and s: "allQuestions s = B" "totalScore s = 0"
      "screen s = screen s0 @ [ShowQuestion 0 (B ! 0) 0]"
    using startQuiz_nonempty [OF assms(1) assms(3), of rnd] by blast
  have len: "length (allQuestions s) - 0 \<le> length as"
    using assms(2) s(1) by simp
  then obtain s' where pl: "play rnd as s = Inr s'" and cf: "completed_from s s'"
    using play_from_awaiting [OF aw, of as rnd] by blast
  obtain qs where d: "displayed (screen s') = displayed (screen s) @ qs"
    and l: "length qs = length (allQuestions s) - Suc 0"
    and t: "totalScore s' = totalScore s + matching (allQuestions s ! 0 # qs) as"
    using asked_from_awaiting [OF aw len pl] by blast
  have "completions (screen s') = completions (screen s0) @ [(totalScore s', length B)] \<and>
        attempt_score (last (allScores (playerObj s'))) = totalScore s' \<and>
        right_answers (screen s') = right_answers (screen s0) + totalScore s'"
    using cf s by (simp add: completed_from_def completions_append right_answers_append)
  moreover have "displayed (screen s') = displayed (screen s0) @ (B ! 0 # qs)"
    using d s(3) by (simp add: displayed_append)
  moreover have "length (B ! 0 # qs) = length B"
    using l s(1) assms(1) by (cases B) simp_all
  moreover have "totalScore s' = matching (B ! 0 # qs) as"
    using t s(1) s(2) by simp
  ultimately show ?thesis
    using st pl by blast
qed

theorem final_score_counts_right_answers_witness:
  "sample_batch \<noteq> [] \<and> length sample_batch \<le> length [''a'', ''b'', ''zzz'', ''late''] \<and>
   pendingTimers (newQuiz newPlayer) = 0 \<and>
   (\<exists>s'. play (constant_draws 0) [''a'', ''b'', ''zzz'', ''late''] sample_started = Inr s' \<and>
      completions (screen s') = [(2, 3)] \<and>
      attempt_score (last (allScores (playerObj s'))) = 2 \<and>
      displayed (screen s') =
        [sample_question ''a'' ''easy'', sample_question ''b'' ''hard'',
         sample_question ''c'' ''medium''] \<and>
      matching (displayed (screen s')) [''a'', ''b'', ''zzz'', ''late''] = 2 \<and>
      right_answers (screen s') = 2)"
proof -
  have h1: "sample_batch \<noteq> []"
    by (simp add: sample_batch_def)
  have h2: "length sample_batch \<le> length [''a'', ''b'', ''zzz'', ''late'']"
    by (simp add: sample_batch_def)
  have h3: "pendingTimers (newQuiz newPlayer) = 0"
    by (simp add: newQuiz_def)
  have st: "startQuiz (constant_draws 0) sample_batch (newQuiz newPlayer) = Inr sample_started"
    by (simp add: startQuiz_def initializeQuiz_def gen_next_def gen_while_def
        quizFlowGenerator_def displayCurrentQuestion_def clearCurrentScore_def
        newQuiz_def newPlayer_def sample_started_def sample_batch_def)
  have ev: "(case play (constant_draws 0) [''a'', ''b'', ''zzz'', ''late''] sample_started of
               Inl e \<Rightarrow> []
             | Inr s' \<Rightarrow> displayed (screen s')) =
            [sample_question ''a'' ''easy'', sample_question ''b'' ''hard'',
             sample_question ''c'' ''medium'']"
    by code_simp
  have m: "matching [sample_question ''a'' ''easy'', sample_question ''b'' ''hard'',
             sample_question ''c'' ''medium''] [''a'', ''b'', ''zzz'', ''late''] = 2"
    by (simp add: sample_question_def)
  obtain s s' sc qs
    where s: "startQuiz (constant_draws 0) sample_batch (newQuiz newPlayer) = Inr s"
    and pl: "play (constant_draws 0) [''a'', ''b'', ''zzz'', ''late''] s = Inr s'"
    and r: "completions (screen s') =
        completions (screen (newQuiz newPlayer)) @ [(sc, length sample_batch)]"
      "attempt_score (last (allScores (playerObj s'))) = sc"
      "displayed (screen s') = displayed (screen (newQuiz newPlayer)) @ qs"
      "sc = matching qs [''a'', ''b'', ''zzz'', ''late'']"
      "right_answers (screen s') = right_answers (screen (newQuiz newPlayer)) + sc"
    using final_score_counts_right_answers [OF h1 h2 h3, of "constant_draws 0"] by blast
  have eq: "s = sample_started"
    using s st by simp
  have d: "displayed (screen s') =
        [sample_question ''a'' ''easy'', sample_question ''b'' ''hard'',
         sample_question ''c'' ''medium'']"
    using ev pl unfolding eq by simp
  have qs: "qs = displayed (screen s')"
    using r(3) by (simp add: newQuiz_def)
  have sc: "sc = 2"
    using r(4) m unfolding qs d by simp
  have "completions (screen s') = [(2, 3)]"
    using r(1) sc by (simp add: newQuiz_def sample_batch_def)
  moreover have "right_answers (screen s') = 2"
    using r(5) sc by (simp add: newQuiz_def)
  moreover have "matching (displayed (screen s')) [''a'', ''b'', ''zzz'', ''late''] = 2"
    using m unfolding d .
  ultimately show ?thesis
    using h1 h2 h3 pl r(2) sc d unfolding eq by blast
qed

text \<open>
  C10. From every state with no timer pending, after a quiz is started and answers are
  submitted one per displayed question, \<open>correctCount\<close> of the generator equals
  \<open>totalScore\<close> of the quiz in the state right after each call of \<open>selectAnswer\<close>; on a
  non-empty batch every answer of the list reaches such a state.
\<close>

theorem correctCount_equals_totalScore:
  assumes "startQuiz rnd B s0 = Inr s" and "pendingTimers s0 = 0"
  shows "(\<forall>s' \<in> set (answered rnd as s).
            \<exists>g. qGen s' = Some g \<and> correctCount g = totalScore s') \<and>
         (B \<noteq> [] \<longrightarrow> length (answered rnd as s) = length as)"
proof (cases "B = []")
  case True
  then have s: "quizRunning s" "allQuestions s = []"
    using assms(1) startQuiz_Nil [of rnd s0] by auto
  have "answered rnd as s = []"
  proof (cases as)
    case Nil
    then show ?thesis by simp
  next
    case (Cons a as')
    have "selectAnswer rnd a s = Inl TypeError"
      using s by (simp add: selectAnswer_def)
    then show ?thesis
      using Cons by simp
  qed
  then show ?thesis
    using True by simp
next
  case False
  obtain s2 where st: "startQuiz rnd B s0 = Inr s2" and aw: "awaiting_answer 0 s2"
    using startQuiz_nonempty [OF False assms(2), of rnd] by blast
  have "s2 = s"
    using st assms(1) by simp
  then have "(\<forall>s' \<in> set (answered rnd as s). counts_agree s') \<and>
              length (answered rnd as s) = length as"
    using answered_from_awaiting [OF aw, of rnd as] by simp
  then show ?thesis
    by (auto simp: counts_agree_def split: option.splits)
qed

theorem correctCount_equals_totalScore_witness:
  "startQuiz (constant_draws 0) sample_batch (newQuiz newPlayer) = Inr sample_started \<and>
   pendingTimers (newQuiz newPlayer) = 0 \<and>
   map totalScore (answered (constant_draws 0) [''a'', ''b'', ''zzz''] sample_started) = [1, 2, 2] \<and>
   map (map_option correctCount \<circ> qGen)
     (answered (constant_draws 0) [''a'', ''b'', ''zzz''] sample_started) = [Some 1, Some 2, Some 2]"
proof -
  have st: "startQuiz (constant_draws 0) sample_batch (newQuiz newPlayer) = Inr sample_started"
    by (simp add: startQuiz_def initializeQuiz_def gen_next_def gen_while_def
        quizFlowGenerator_def displayCurrentQuestion_def clearCurrentScore_def
        newQuiz_def newPlayer_def sample_started_def sample_batch_def)
  have h: "pendingTimers (newQuiz newPlayer) = 0"
    by (simp add: newQuiz_def)
  define xs where "xs = answered (constant_draws 0) [''a'', ''b'', ''zzz''] sample_started"
  have ts: "map totalScore xs = [1, 2, 2]"
    unfolding xs_def by code_simp
  have "\<forall>s' \<in> set xs. \<exists>g. qGen s' = Some g \<and> correctCount g = totalScore s'"
    unfolding xs_def
    using correctCount_equals_totalScore [OF st h, of "[''a'', ''b'', ''zzz'']"] by blast
  then have "map (map_option correctCount \<circ> qGen) xs = map Some (map totalScore xs)"
    by auto
  then have "map (map_option correctCount \<circ> qGen) xs = [Some 1, Some 2, Some 2]"
    by (simp only: ts list.map)
  then show ?thesis
    using st h ts unfolding xs_def by blast
qed

end
